theory Spec2Isabelle
  imports Main "HOL-Library.Word"
begin

section \<open>Colors (color.go)\<close>

text \<open>
  \<^verbatim>\<open>type ColorMode int\<close> with the four constants of the \<^verbatim>\<open>iota\<close> block, and
  \<^verbatim>\<open>type Color struct { mode ColorMode; r, g, b uint8; index uint8 }\<close>.
\<close>

datatype ColorMode = ColorModeDefault | ColorMode16 | ColorMode256 | ColorModeTrueColor

type_synonym uint8 = "8 word"

record Color =
  mode :: ColorMode
  r :: uint8
  g :: uint8
  b :: uint8
  index :: uint8

text \<open>A composite literal leaves the fields it does not name at their zero value.\<close>

definition ColorDefault :: Color where
  "ColorDefault = \<lparr>mode = ColorModeDefault, r = 0, g = 0, b = 0, index = 0\<rparr>"

definition ColorRGB :: "uint8 \<Rightarrow> uint8 \<Rightarrow> uint8 \<Rightarrow> Color" where
  "ColorRGB cr cg cb = \<lparr>mode = ColorModeTrueColor, r = cr, g = cg, b = cb, index = 0\<rparr>"

definition ColorIndex :: "uint8 \<Rightarrow> Color" where
  "ColorIndex i =
     \<lparr>mode = (if i < 16 then ColorMode16 else ColorMode256), r = 0, g = 0, b = 0, index = i\<rparr>"

definition ColorBlack :: Color where "ColorBlack = ColorIndex 0"
definition ColorRed :: Color where "ColorRed = ColorIndex 1"
definition ColorGreen :: Color where "ColorGreen = ColorIndex 2"
definition ColorYellow :: Color where "ColorYellow = ColorIndex 3"
definition ColorBlue :: Color where "ColorBlue = ColorIndex 4"
definition ColorMagenta :: Color where "ColorMagenta = ColorIndex 5"
definition ColorCyan :: Color where "ColorCyan = ColorIndex 6"
definition ColorWhite :: Color where "ColorWhite = ColorIndex 7"

text \<open>
  \<^verbatim>\<open>To256\<close>: the three channels are widened to \<^verbatim>\<open>int\<close> before the arithmetic, so
  nothing wraps until the final conversion \<^verbatim>\<open>uint8(...)\<close>, which is \<open>word_of_int\<close>.
\<close>

definition To256 :: "Color \<Rightarrow> Color" where
  "To256 c =
     (if mode c \<noteq> ColorModeTrueColor then c
      else
        let qr = (uint (r c) * 6) div 256;
            qg = (uint (g c) * 6) div 256;
            qb = (uint (b c) * 6) div 256
        in ColorIndex (word_of_int (16 + 36 * qr + 6 * qg + qb)))"

text \<open>\<^verbatim>\<open>To16\<close>: \<^verbatim>\<open>idx % 8\<close> is taken on \<^verbatim>\<open>uint8\<close>.\<close>

definition To16 :: "Color \<Rightarrow> Color" where
  "To16 c =
     (if mode c = ColorMode16 then c
      else
        let col = (if mode c = ColorModeTrueColor then To256 c else c);
            idx = index col
        in if idx < 16 then col
           else if idx \<ge> 232 then (if idx < 244 then ColorBlack else ColorWhite)
           else ColorIndex (idx mod 8))"

text \<open>
  \<^verbatim>\<open>fmt.Sprintf("%d", v)\<close> for an unsigned value: its decimal digits, most significant
  first, no sign and no padding.
\<close>

definition digit :: "nat \<Rightarrow> char" where
  "digit n = ''0123456789'' ! n"

function decimal :: "nat \<Rightarrow> string" where
  "decimal n = (if n < 10 then [digit n] else decimal (n div 10) @ [digit (n mod 10)])"
  by pat_completeness auto
termination
  by (relation "measure id") auto

declare decimal.simps [simp del]

definition ESC :: char where
  "ESC = CHR 0x1B"

text \<open>
  \<^verbatim>\<open>ansiCode\<close>: the sums \<^verbatim>\<open>30+c.index\<close>, \<^verbatim>\<open>90+c.index-8\<close>, ... are \<^verbatim>\<open>uint8\<close>
  expressions and are evaluated as such before they are printed. The \<^verbatim>\<open>switch\<close> covers
  every declared mode, so the trailing \<^verbatim>\<open>return ""\<close> has no branch here.
\<close>

definition ansiCode :: "Color \<Rightarrow> bool \<Rightarrow> string" where
  "ansiCode c fg =
     (case mode c of
        ColorModeDefault \<Rightarrow>
          (if fg then ESC # ''[39m'' else ESC # ''[49m'')
      | ColorMode16 \<Rightarrow>
          (if fg then
             (if index c < 8 then ESC # ''['' @ decimal (unat (30 + index c)) @ ''m''
              else ESC # ''['' @ decimal (unat (90 + index c - 8)) @ ''m'')
           else
             (if index c < 8 then ESC # ''['' @ decimal (unat (40 + index c)) @ ''m''
              else ESC # ''['' @ decimal (unat (100 + index c - 8)) @ ''m''))
      | ColorMode256 \<Rightarrow>
          (if fg then ESC # ''[38;5;'' @ decimal (unat (index c)) @ ''m''
           else ESC # ''[48;5;'' @ decimal (unat (index c)) @ ''m'')
      | ColorModeTrueColor \<Rightarrow>
          (if fg then
             ESC # ''[38;2;'' @ decimal (unat (r c)) @ '';'' @ decimal (unat (g c)) @ '';''
               @ decimal (unat (b c)) @ ''m''
           else
             ESC # ''[48;2;'' @ decimal (unat (r c)) @ '';'' @ decimal (unat (g c)) @ '';''
               @ decimal (unat (b c)) @ ''m''))"


subsection \<open>The mode/index invariant\<close>

text \<open>
  The fields of \<^verbatim>\<open>Color\<close> are unexported, so outside the package a color is only made by
  the constructors, taken from the named variables, or obtained from a conversion.
\<close>


definition coherent :: "Color \<Rightarrow> bool" where
  "coherent c \<longleftrightarrow>
     (mode c = ColorMode16 \<longrightarrow> index c < 16) \<and> (mode c = ColorMode256 \<longrightarrow> 16 \<le> index c)"

inductive constructed :: "Color \<Rightarrow> bool" where
  by_ColorDefault: "constructed ColorDefault"
| by_ColorRGB: "constructed (ColorRGB cr cg cb)"
| by_ColorIndex: "constructed (ColorIndex i)"
| by_ColorBlack: "constructed ColorBlack"
| by_ColorRed: "constructed ColorRed"
| by_ColorGreen: "constructed ColorGreen"
| by_ColorYellow: "constructed ColorYellow"
| by_ColorBlue: "constructed ColorBlue"
| by_ColorMagenta: "constructed ColorMagenta"
| by_ColorCyan: "constructed ColorCyan"
| by_ColorWhite: "constructed ColorWhite"
| by_To256: "constructed c \<Longrightarrow> constructed (To256 c)"
| by_To16: "constructed c \<Longrightarrow> constructed (To16 c)"

text \<open>The quantised channel of the color cube, \<open>\<lfloor>v * 6 / 256\<rfloor>\<close>.\<close>

definition quant :: "uint8 \<Rightarrow> nat" where
  "quant v = unat v * 6 div 256"


section \<open>Styles and cells (cell.go)\<close>

text \<open>
  Modelled from the spec: the file that declares \<^verbatim>\<open>Style\<close>, \<^verbatim>\<open>StyleNone\<close> and
  \<^verbatim>\<open>Style.ansiCode\<close> is not among the sources. The spec describes the type as a bitmask
  over nine flags held in a machine word, with \<^verbatim>\<open>None\<close> the empty set; the design notes
  of the repository give the word 16 bits. The code generator of a style is not modelled:
  \<^verbatim>\<open>Show\<close> below takes it as the parameter \<open>sty\<close>, and every statement about \<^verbatim>\<open>Show\<close>
  holds for any such function.
\<close>

type_synonym Style = "16 word"

definition StyleNone :: Style where
  "StyleNone = 0"

text \<open>\<^verbatim>\<open>rune\<close> is \<^verbatim>\<open>int32\<close>; it is read as a signed value with \<open>sint\<close>.\<close>

type_synonym rune = "32 word"

record Cell =
  Ch :: rune
  Fg :: Color
  Bg :: Color
  Style :: Style

definition NewCell :: "rune \<Rightarrow> Color \<Rightarrow> Color \<Rightarrow> Style \<Rightarrow> Cell" where
  "NewCell ch fg bg style = \<lparr>Ch = ch, Fg = fg, Bg = bg, Style = style\<rparr>"

definition Equal :: "Cell \<Rightarrow> Cell \<Rightarrow> bool" where
  "Equal c other \<longleftrightarrow>
     Ch c = Ch other \<and> Fg c = Fg other \<and> Bg c = Bg other \<and> Style c = Style other"

text \<open>The zero values that \<^verbatim>\<open>make\<close> and \<^verbatim>\<open>var\<close> give to a color and to a cell.\<close>

definition zeroColor :: Color where
  "zeroColor = \<lparr>mode = ColorModeDefault, r = 0, g = 0, b = 0, index = 0\<rparr>"

definition zeroCell :: Cell where
  "zeroCell = \<lparr>Ch = 0, Fg = zeroColor, Bg = zeroColor, Style = 0\<rparr>"

section \<open>The screen buffer (screen.go)\<close>

text \<open>
  \<^verbatim>\<open>Screen\<close> keeps its dimensions, the flat row-major slice of cells and the output sink.
  The sink is a value of type \<open>'w\<close>, the state of whatever \<^verbatim>\<open>io.Writer\<close> the screen holds.
  The lock and the saved terminal state play no part in the operations below and are left
  out.

  \<^verbatim>\<open>int\<close> has 64 bits, and its arithmetic wraps in two's complement: \<open>go_int\<close> takes an
  exact result to the value the machine keeps. It is applied wherever the code computes
  with a dimension the caller supplies: the length \<^verbatim>\<open>width*height\<close> of the slice that
  \<^verbatim>\<open>NewScreen\<close> and \<^verbatim>\<open>Resize\<close> make, and the index \<^verbatim>\<open>y*width + x\<close> into the new slice of
  \<^verbatim>\<open>Resize\<close>. An index \<^verbatim>\<open>y*s.width + x\<close> into the cells of the buffer itself is formed only
  after the coordinates were checked against the buffer's own dimensions, and is written
  exactly; so is the sum \<^verbatim>\<open>x+i\<close> of \<^verbatim>\<open>DrawText\<close>, which is out of range of the buffer
  whether it wraps (to a negative value) or not.
\<close>

definition go_int :: "int \<Rightarrow> int" where
  "go_int i = (i + 2 ^ 63) mod 2 ^ 64 - 2 ^ 63"

record 'w Screen =
  width :: int
  height :: int
  cells :: "Cell list"
  out :: 'w

text \<open>The ways the code can panic: the explicit check of \<^verbatim>\<open>NewScreen\<close>, the bounds
  check of every slice access, and the length check of \<^verbatim>\<open>make\<close>.\<close>

datatype panic = InvalidDimensions | IndexOutOfRange | LenOutOfRange

definition cell_at :: "Cell list \<Rightarrow> int \<Rightarrow> panic + Cell" where
  "cell_at cs i =
     (if 0 \<le> i \<and> i < int (length cs) then Inr (cs ! nat i) else Inl IndexOutOfRange)"

definition cell_put :: "Cell list \<Rightarrow> int \<Rightarrow> Cell \<Rightarrow> panic + Cell list" where
  "cell_put cs i c =
     (if 0 \<le> i \<and> i < int (length cs) then Inr (cs[nat i := c]) else Inl IndexOutOfRange)"

text \<open>
  \<^verbatim>\<open>make([]Cell, n)\<close> panics when \<open>n\<close> is negative or more than the runtime allocates,
  and returns \<open>n\<close> zero-valued cells otherwise. The largest length it allocates depends
  on the platform and the machine; it is the parameter \<open>limit\<close> of \<^verbatim>\<open>NewScreen\<close> and
  \<^verbatim>\<open>Resize\<close>. A request above it ends the call, whether by the panic of \<^verbatim>\<open>makeslice\<close> or
  by the failure of the allocation.
\<close>

definition make_cells :: "int \<Rightarrow> int \<Rightarrow> panic + Cell list" where
  "make_cells limit n =
     (if n < 0 \<or> limit < n then Inl LenOutOfRange else Inr (replicate (nat n) zeroCell))"

definition Clear :: "'w Screen \<Rightarrow> 'w Screen" where
  "Clear s =
     s\<lparr>cells := map (\<lambda>_. NewCell 32 ColorDefault ColorDefault StyleNone) (cells s)\<rparr>"

definition NewScreen :: "int \<Rightarrow> 'w \<Rightarrow> int \<Rightarrow> int \<Rightarrow> panic + 'w Screen" where
  "NewScreen limit stdout w h =
     (if w \<le> 0 \<or> h \<le> 0 then Inl InvalidDimensions
      else case make_cells limit (go_int (w * h)) of
             Inl p \<Rightarrow> Inl p
           | Inr made \<Rightarrow>
               Inr (Clear \<lparr>width = w, height = h, cells = made, out = stdout\<rparr>))"

definition Size :: "'w Screen \<Rightarrow> int \<times> int" where
  "Size s = (width s, height s)"

definition SetCell :: "'w Screen \<Rightarrow> int \<Rightarrow> int \<Rightarrow> Cell \<Rightarrow> panic + 'w Screen" where
  "SetCell s x y cell =
     (if x < 0 \<or> y < 0 \<or> x \<ge> width s \<or> y \<ge> height s then Inr s
      else case cell_put (cells s) (y * width s + x) cell of
             Inl p \<Rightarrow> Inl p
           | Inr cs \<Rightarrow> Inr (s\<lparr>cells := cs\<rparr>))"

definition GetCell :: "'w Screen \<Rightarrow> int \<Rightarrow> int \<Rightarrow> panic + Cell" where
  "GetCell s x y =
     (if x < 0 \<or> y < 0 \<or> x \<ge> width s \<or> y \<ge> height s
      then Inr (NewCell 32 ColorDefault ColorDefault StyleNone)
      else cell_at (cells s) (y * width s + x))"

text \<open>
  \<^verbatim>\<open>DrawText\<close>: the text is taken as the rune sequence \<^verbatim>\<open>[]rune(text)\<close>; the loop
  \<^verbatim>\<open>for i, ch := range runes\<close> is the recursion over that sequence with the index \<open>i\<close>.
\<close>

fun DrawText_from ::
  "'w Screen \<Rightarrow> int \<Rightarrow> int \<Rightarrow> int \<Rightarrow> rune list \<Rightarrow> Color \<Rightarrow> Color \<Rightarrow> Style \<Rightarrow> panic + 'w Screen"
where
  "DrawText_from s x y i [] fg bg style = Inr s"
| "DrawText_from s x y i (ch # runes) fg bg style =
     (case SetCell s (x + i) y (NewCell ch fg bg style) of
        Inl p \<Rightarrow> Inl p
      | Inr s' \<Rightarrow> DrawText_from s' x y (i + 1) runes fg bg style)"

definition DrawText ::
  "'w Screen \<Rightarrow> int \<Rightarrow> int \<Rightarrow> rune list \<Rightarrow> Color \<Rightarrow> Color \<Rightarrow> Style \<Rightarrow> panic + 'w Screen"
where
  "DrawText s x y text fg bg style = DrawText_from s x y 0 text fg bg style"

text \<open>
  \<^verbatim>\<open>Resize\<close>: the inner loop over \<open>x\<close> and the outer loop over \<open>y\<close> of the copy, each
  reading the old slice and writing the new one under the bounds checks. The index into
  the new slice is \<^verbatim>\<open>y*width + x\<close> as the machine computes it from the new width.
\<close>

function Resize_cols ::
  "Cell list \<Rightarrow> int \<Rightarrow> int \<Rightarrow> int \<Rightarrow> int \<Rightarrow> int \<Rightarrow> Cell list \<Rightarrow> panic + Cell list"
where
  "Resize_cols old oldWidth newWidth minWidth y x newCells =
     (if x < minWidth then
        (case cell_at old (y * oldWidth + x) of
           Inl p \<Rightarrow> Inl p
         | Inr c \<Rightarrow>
             (case cell_put newCells (go_int (go_int (y * newWidth) + x)) c of
                Inl p \<Rightarrow> Inl p
              | Inr newCells' \<Rightarrow>
                  Resize_cols old oldWidth newWidth minWidth y (x + 1) newCells'))
      else Inr newCells)"
  by pat_completeness auto
termination
  by (relation "measure (\<lambda>(old, oldWidth, newWidth, minWidth, y, x, newCells). nat (minWidth - x))")
    auto

declare Resize_cols.simps [simp del]

function Resize_rows ::
  "Cell list \<Rightarrow> int \<Rightarrow> int \<Rightarrow> int \<Rightarrow> int \<Rightarrow> int \<Rightarrow> Cell list \<Rightarrow> panic + Cell list"
where
  "Resize_rows old oldWidth newWidth minWidth minHeight y newCells =
     (if y < minHeight then
        (case Resize_cols old oldWidth newWidth minWidth y 0 newCells of
           Inl p \<Rightarrow> Inl p
         | Inr newCells' \<Rightarrow>
             Resize_rows old oldWidth newWidth minWidth minHeight (y + 1) newCells')
      else Inr newCells)"
  by pat_completeness auto
termination
  by (relation
      "measure (\<lambda>(old, oldWidth, newWidth, minWidth, minHeight, y, newCells). nat (minHeight - y))")
    auto

declare Resize_rows.simps [simp del]

definition Resize :: "int \<Rightarrow> 'w Screen \<Rightarrow> int \<Rightarrow> int \<Rightarrow> panic + 'w Screen" where
  "Resize limit s w h =
     (if w \<le> 0 \<or> h \<le> 0 then Inr s
      else
        case make_cells limit (go_int (w * h)) of
          Inl p \<Rightarrow> Inl p
        | Inr made \<Rightarrow>
            let newCells = map (\<lambda>_. NewCell 32 ColorDefault ColorDefault StyleNone) made;
                minWidth = (if width s < w then width s else w);
                minHeight = (if height s < h then height s else h)
            in case Resize_rows (cells s) (width s) w minWidth minHeight 0 newCells of
                 Inl p \<Rightarrow> Inl p
               | Inr newCells' \<Rightarrow> Inr (s\<lparr>width := w, height := h, cells := newCells'\<rparr>))"

subsection \<open>Rendering\<close>

text \<open>
  \<^verbatim>\<open>string(cell.Ch)\<close> is the language's conversion of a code point to its UTF-8 bytes;
  a value that is not a valid code point gives the bytes of U+FFFD.
\<close>

definition utf8 :: "nat \<Rightarrow> string" where
  "utf8 n =
     (if n < 0x80 then [char_of n]
      else if n < 0x800 then [char_of (0xC0 + n div 64), char_of (0x80 + n mod 64)]
      else if n < 0x10000 then
        [char_of (0xE0 + n div 4096), char_of (0x80 + n div 64 mod 64),
         char_of (0x80 + n mod 64)]
      else
        [char_of (0xF0 + n div 262144), char_of (0x80 + n div 4096 mod 64),
         char_of (0x80 + n div 64 mod 64), char_of (0x80 + n mod 64)])"

definition rune_string :: "rune \<Rightarrow> string" where
  "rune_string ch =
     (let v = sint ch
      in if v < 0 \<or> 0x10FFFF < v \<or> (0xD800 \<le> v \<and> v \<le> 0xDFFF) then utf8 0xFFFD
         else utf8 (nat v))"

text \<open>
  A call of the sink's \<^verbatim>\<open>Write\<close> is \<open>wr w str\<close>: the sink after the call, and the error
  it returned if any. \<^verbatim>\<open>fmt.Errorf("msg: %w", err)\<close> is \<open>Errorf msg err\<close>. \<open>Fprint\<close> is
  the statement \<^verbatim>\<open>if _, err := fmt.Fprint(s.out, str); err != nil { return fmt.Errorf(...) }\<close>,
  and \<open>and_then\<close> runs the rest of the function when that statement did not return.
\<close>

datatype 'e error = Errorf string 'e

type_synonym ('w, 'e) writer = "'w \<Rightarrow> string \<Rightarrow> 'w \<times> 'e option"

definition Fprint :: "('w, 'e) writer \<Rightarrow> string \<Rightarrow> 'w \<Rightarrow> string \<Rightarrow> 'w \<times> 'e error option" where
  "Fprint wr msg w str =
     (case wr w str of
        (w', None) \<Rightarrow> (w', None)
      | (w', Some e) \<Rightarrow> (w', Some (Errorf msg e)))"

definition and_then ::
  "'w \<times> 'e error option \<Rightarrow> ('w \<Rightarrow> 'w \<times> 'e error option) \<Rightarrow> 'w \<times> 'e error option"
where
  "and_then res k = (case res of (w, None) \<Rightarrow> k w | (w, Some err) \<Rightarrow> (w, Some err))"

text \<open>The local variables of \<^verbatim>\<open>Show\<close> that live across the loops.\<close>

record Show_vars =
  lastFg :: Color
  lastBg :: Color
  lastStyle :: Style
  needsReset :: bool

text \<open>The four writes inside the \<^verbatim>\<open>if\<close> of the inner loop.\<close>

definition Show_attrs ::
  "('w, 'e) writer \<Rightarrow> (Style \<Rightarrow> string) \<Rightarrow> Cell \<Rightarrow> 'w \<Rightarrow> 'w \<times> 'e error option"
where
  "Show_attrs wr sty cell w =
     and_then (Fprint wr ''failed to reset attributes'' w (ESC # ''[0m'')) (\<lambda>w.
     and_then (if mode (Fg cell) \<noteq> ColorModeDefault
               then Fprint wr ''failed to set foreground color'' w (ansiCode (Fg cell) True)
               else (w, None)) (\<lambda>w.
     and_then (if mode (Bg cell) \<noteq> ColorModeDefault
               then Fprint wr ''failed to set background color'' w (ansiCode (Bg cell) False)
               else (w, None)) (\<lambda>w.
       if Style cell \<noteq> StyleNone
       then Fprint wr ''failed to set style'' w (sty (Style cell))
       else (w, None))))"

text \<open>The body of the inner loop for one cell.\<close>

definition Show_cell ::
  "('w, 'e) writer \<Rightarrow> (Style \<Rightarrow> string) \<Rightarrow> Cell \<Rightarrow> 'w \<times> Show_vars
     \<Rightarrow> ('w \<times> Show_vars) \<times> 'e error option"
where
  "Show_cell wr sty cell st =
     (case st of (w, v) \<Rightarrow>
        if Fg cell \<noteq> lastFg v \<or> Bg cell \<noteq> lastBg v \<or> Style cell \<noteq> lastStyle v \<or> needsReset v
        then
          (case Show_attrs wr sty cell w of
             (w', Some err) \<Rightarrow> ((w', v), Some err)
           | (w', None) \<Rightarrow>
               (let v' = v\<lparr>lastFg := Fg cell, lastBg := Bg cell, lastStyle := Style cell,
                           needsReset := False\<rparr>
                in case Fprint wr ''failed to write character'' w' (rune_string (Ch cell)) of
                     (w'', res) \<Rightarrow> ((w'', v'), res)))
        else
          (case Fprint wr ''failed to write character'' w (rune_string (Ch cell)) of
             (w'', res) \<Rightarrow> ((w'', v), res)))"

function Show_cols ::
  "('w, 'e) writer \<Rightarrow> (Style \<Rightarrow> string) \<Rightarrow> 's Screen \<Rightarrow> int \<Rightarrow> int \<Rightarrow> 'w \<times> Show_vars
     \<Rightarrow> panic + ('w \<times> Show_vars) \<times> 'e error option"
where
  "Show_cols wr sty s y x st =
     (if x < width s then
        (case cell_at (cells s) (y * width s + x) of
           Inl p \<Rightarrow> Inl p
         | Inr cell \<Rightarrow>
             (case Show_cell wr sty cell st of
                (st', Some err) \<Rightarrow> Inr (st', Some err)
              | (st', None) \<Rightarrow> Show_cols wr sty s y (x + 1) st'))
      else Inr (st, None))"
  by pat_completeness auto
termination
  by (relation "measure (\<lambda>(wr, sty, s, y, x, st). nat (width s - x))") auto

declare Show_cols.simps [simp del]

function Show_rows ::
  "('w, 'e) writer \<Rightarrow> (Style \<Rightarrow> string) \<Rightarrow> 's Screen \<Rightarrow> int \<Rightarrow> 'w \<times> Show_vars
     \<Rightarrow> panic + ('w \<times> Show_vars) \<times> 'e error option"
where
  "Show_rows wr sty s y st =
     (if y < height s then
        (case Show_cols wr sty s y 0 st of
           Inl p \<Rightarrow> Inl p
         | Inr (st', Some err) \<Rightarrow> Inr (st', Some err)
         | Inr ((w, v), None) \<Rightarrow>
             (if y < height s - 1 then
                (case Fprint wr ''failed to write newline'' w [CHR 0x0D, CHR 0x0A] of
                   (w', Some err) \<Rightarrow> Inr ((w', v), Some err)
                 | (w', None) \<Rightarrow> Show_rows wr sty s (y + 1) (w', v))
              else Show_rows wr sty s (y + 1) (w, v)))
      else Inr (st, None))"
  by pat_completeness auto
termination
  by (relation "measure (\<lambda>(wr, sty, s, y, st). nat (height s - y))") auto

declare Show_rows.simps [simp del]

definition Show ::
  "('w, 'e) writer \<Rightarrow> (Style \<Rightarrow> string) \<Rightarrow> 'w Screen \<Rightarrow> panic + 'w Screen \<times> 'e error option"
where
  "Show wr sty s =
     (case Fprint wr ''failed to move cursor'' (out s) (ESC # ''[H'') of
        (w, Some err) \<Rightarrow> Inr (s\<lparr>out := w\<rparr>, Some err)
      | (w, None) \<Rightarrow>
          (case Show_rows wr sty s 0
                  (w, \<lparr>lastFg = zeroColor, lastBg = zeroColor, lastStyle = 0,
                       needsReset = False\<rparr>) of
             Inl p \<Rightarrow> Inl p
           | Inr ((w', v), Some err) \<Rightarrow> Inr (s\<lparr>out := w'\<rparr>, Some err)
           | Inr ((w', v), None) \<Rightarrow>
               (case Fprint wr ''failed to reset final attributes'' w' (ESC # ''[0m'') of
                  (w'', res) \<Rightarrow> Inr (s\<lparr>out := w''\<rparr>, res))))"

text \<open>A sink that keeps every byte written to it and never fails, as a byte buffer does,
  and one that accepts a given number of writes and fails from then on.\<close>

definition buffer_write :: "(string, unit) writer" where
  "buffer_write w str = (w @ str, None)"

definition failing_write :: "(string \<times> nat, unit) writer" where
  "failing_write w str =
     (case w of (bytes, n) \<Rightarrow>
        if n = 0 then ((bytes, 0), Some ()) else ((bytes @ str, n - 1), None))"

section \<open>What the operations are to guarantee\<close>

text \<open>The invariant of a buffer: positive dimensions, and as many cells as they span.\<close>

definition screen_inv :: "'w Screen \<Rightarrow> bool" where
  "screen_inv s \<longleftrightarrow>
     0 < width s \<and> 0 < height s \<and> int (length (cells s)) = width s * height s"

definition in_range :: "'w Screen \<Rightarrow> int \<Rightarrow> int \<Rightarrow> bool" where
  "in_range s x y \<longleftrightarrow> 0 \<le> x \<and> x < width s \<and> 0 \<le> y \<and> y < height s"

text \<open>
  The rendering as the specification words it, as the list of writes in order, each with
  the sub-operation it belongs to. A cell is compared with the attribute triple of the
  cell before it in row-major order; \<open>prev\<close> is that triple.
\<close>

type_synonym attrs = "Color \<times> Color \<times> Style"

definition attrs_of :: "Cell \<Rightarrow> attrs" where
  "attrs_of c = (Fg c, Bg c, Style c)"

definition attr_writes :: "(Style \<Rightarrow> string) \<Rightarrow> Cell \<Rightarrow> (string \<times> string) list" where
  "attr_writes sty c =
     [(''failed to reset attributes'', ESC # ''[0m'')]
     @ (if mode (Fg c) \<noteq> ColorModeDefault
        then [(''failed to set foreground color'', ansiCode (Fg c) True)] else [])
     @ (if mode (Bg c) \<noteq> ColorModeDefault
        then [(''failed to set background color'', ansiCode (Bg c) False)] else [])
     @ (if Style c \<noteq> StyleNone then [(''failed to set style'', sty (Style c))] else [])"

definition cell_writes :: "(Style \<Rightarrow> string) \<Rightarrow> attrs \<Rightarrow> Cell \<Rightarrow> (string \<times> string) list" where
  "cell_writes sty prev c =
     (if attrs_of c = prev then [] else attr_writes sty c)
     @ [(''failed to write character'', rune_string (Ch c))]"

fun row_writes :: "(Style \<Rightarrow> string) \<Rightarrow> attrs \<Rightarrow> Cell list \<Rightarrow> (string \<times> string) list" where
  "row_writes sty prev [] = []"
| "row_writes sty prev (c # cs) = cell_writes sty prev c @ row_writes sty (attrs_of c) cs"

definition row_end :: "attrs \<Rightarrow> Cell list \<Rightarrow> attrs" where
  "row_end prev cs = (if cs = [] then prev else attrs_of (last cs))"

fun rows_writes ::
  "(Style \<Rightarrow> string) \<Rightarrow> attrs \<Rightarrow> Cell list list \<Rightarrow> (string \<times> string) list"
where
  "rows_writes sty prev [] = []"
| "rows_writes sty prev (row # rows) =
     row_writes sty prev row
     @ (if rows = [] then []
        else (''failed to write newline'', [CHR 0x0D, CHR 0x0A])
             # rows_writes sty (row_end prev row) rows)"

definition rows_of :: "'w Screen \<Rightarrow> Cell list list" where
  "rows_of s =
     map (\<lambda>y. map (\<lambda>x. cells s ! (y * nat (width s) + x)) [0..<nat (width s)])
       [0..<nat (height s)]"

definition show_writes :: "(Style \<Rightarrow> string) \<Rightarrow> attrs \<Rightarrow> 'w Screen \<Rightarrow> (string \<times> string) list" where
  "show_writes sty first s =
     (''failed to move cursor'', ESC # ''[H'')
     # rows_writes sty first (rows_of s)
     @ [(''failed to reset final attributes'', ESC # ''[0m'')]"

text \<open>Performing a list of writes in order, stopping at the first that fails.\<close>

fun emit_all :: "('w, 'e) writer \<Rightarrow> 'w \<Rightarrow> (string \<times> string) list \<Rightarrow> 'w \<times> 'e error option" where
  "emit_all wr w [] = (w, None)"
| "emit_all wr w ((msg, str) # rest) =
     and_then (Fprint wr msg w str) (\<lambda>w'. emit_all wr w' rest)"

text \<open>The indices of the new slice that the copy of \<^verbatim>\<open>Resize\<close> writes from row \<open>y\<close> on.\<close>

definition copied :: "int \<Rightarrow> int \<Rightarrow> int \<Rightarrow> int \<Rightarrow> nat \<Rightarrow> bool" where
  "copied newWidth minWidth minHeight y j \<longleftrightarrow>
     (\<exists>row k. y \<le> row \<and> row < minHeight \<and> 0 \<le> k \<and> k < minWidth \<and> int j = row * newWidth + k)"

text \<open>Two concrete buffers: 3 by 2 with the letters a to f, and 10 by 5.\<close>

definition glyph :: "rune \<Rightarrow> Cell" where
  "glyph ch = NewCell ch ColorDefault ColorDefault StyleNone"

definition demo :: "string Screen" where
  "demo = \<lparr>width = 3, height = 2,
            cells = [glyph 97, glyph 98, glyph 99, glyph 100, glyph 101, glyph 102],
            out = []\<rparr>"

definition demo_10x5 :: "string Screen" where
  "demo_10x5 = \<lparr>width = 10, height = 5, cells = replicate 50 (glyph 120), out = []\<rparr>"

text \<open>
  The loop variables of \<^verbatim>\<open>Show\<close> when the last emitted triple is \<open>a\<close>, and the cells of
  row \<open>y\<close> from column \<open>x\<close> on.
\<close>

definition vars_of :: "attrs \<Rightarrow> Show_vars" where
  "vars_of a = (case a of (fg, bg, style) \<Rightarrow>
     \<lparr>lastFg = fg, lastBg = bg, lastStyle = style, needsReset = False\<rparr>)"

definition row_at :: "'s Screen \<Rightarrow> nat \<Rightarrow> nat \<Rightarrow> Cell list" where
  "row_at s y x = map (\<lambda>k. cells s ! (y * nat (width s) + k)) [x..<nat (width s)]"

text \<open>
  For the examples: a stand-in for the code generator of styles, a 1 by 1 buffer as
  \<^verbatim>\<open>NewScreen(1, 1)\<close> makes it, and a 2 by 2 buffer with two bold red letters in the
  first row, a default cell and a cell with a true-color foreground and a 256-color
  background in the second.
\<close>

definition demo_style :: "Style \<Rightarrow> string" where
  "demo_style st = (if st = 1 then ESC # ''[1m'' else [])"

definition blank :: "string Screen" where
  "blank = \<lparr>width = 1, height = 1,
             cells = [NewCell 32 ColorDefault ColorDefault StyleNone], out = []\<rparr>"

definition painted :: "'w \<Rightarrow> 'w Screen" where
  "painted sink0 = \<lparr>width = 2, height = 2,
     cells = [NewCell 88 ColorRed ColorDefault 1, NewCell 89 ColorRed ColorDefault 1,
              NewCell 32 ColorDefault ColorDefault StyleNone,
              NewCell 233 (ColorRGB 1 2 3) (ColorIndex 200) StyleNone],
     out = sink0\<rparr>"

section \<open>Properties of the color model\<close>

lemma quant_le: "quant v \<le> 5"
proof -
  have "unat v < 2 ^ LENGTH(8)" by (rule unsigned_less)
  then have "unat v < 256" by simp
  then show ?thesis unfolding quant_def by simp
qed

lemma uint_quant: "uint v * 6 div 256 = int (quant v)"
  unfolding quant_def by (simp add: zdiv_int)

lemma cube_bound: "16 + 36 * quant cr + 6 * quant cg + quant cb \<le> 231"
  using quant_le [of cr] quant_le [of cg] quant_le [of cb] by linarith

lemma To256_rgb:
  "To256 (ColorRGB cr cg cb) = ColorIndex (of_nat (16 + 36 * quant cr + 6 * quant cg + quant cb))"
  by (simp add: To256_def ColorRGB_def Let_def uint_quant)

lemma unat_cube:
  "unat (of_nat (16 + 36 * quant cr + 6 * quant cg + quant cb) :: uint8)
     = 16 + 36 * quant cr + 6 * quant cg + quant cb"
  using cube_bound [of cr cg cb] by (simp only: unat_of_nat) simp

lemma cube_ge16: "(16 :: uint8) \<le> of_nat (16 + 36 * quant cr + 6 * quant cg + quant cb)"
  using unat_cube [of cr cg cb] by (simp add: word_le_nat_alt del: of_nat_add of_nat_mult)

lemma mode_ColorRGB: "mode (ColorRGB cr cg cb) = ColorModeTrueColor"
  by (simp add: ColorRGB_def)

lemma mode_ColorIndex: "mode (ColorIndex i) = (if i < 16 then ColorMode16 else ColorMode256)"
  by (simp add: ColorIndex_def)

lemma index_ColorIndex: "index (ColorIndex i) = i"
  by (simp add: ColorIndex_def)

text \<open>
  Claim C4. For all channel values, \<^verbatim>\<open>To256\<close> of a true color is the indexed color
  \<open>16 + 36 * \<lfloor>r*6/256\<rfloor> + 6 * \<lfloor>g*6/256\<rfloor> + \<lfloor>b*6/256\<rfloor>\<close>; the sum never wraps in
  \<^verbatim>\<open>uint8\<close>, the result has mode \<^verbatim>\<open>ColorMode256\<close> and an index in \<open>[16, 255]\<close>; pure red
  goes to index 196; a color of any other mode (default or indexed) is returned unchanged.
\<close>

theorem To256_cube_formula:
  "To256 (ColorRGB cr cg cb)
     = ColorIndex (of_nat (16 + 36 * (unat cr * 6 div 256) + 6 * (unat cg * 6 div 256)
                             + unat cb * 6 div 256))
   \<and> unat (index (To256 (ColorRGB cr cg cb)))
     = 16 + 36 * (unat cr * 6 div 256) + 6 * (unat cg * 6 div 256) + unat cb * 6 div 256
   \<and> mode (To256 (ColorRGB cr cg cb)) = ColorMode256
   \<and> 16 \<le> unat (index (To256 (ColorRGB cr cg cb)))
   \<and> unat (index (To256 (ColorRGB cr cg cb))) \<le> 255
   \<and> To256 (ColorRGB 255 0 0) = ColorIndex 196
   \<and> (mode c \<noteq> ColorModeTrueColor \<longrightarrow> To256 c = c)"
proof -
  let ?n = "16 + 36 * quant cr + 6 * quant cg + quant cb"
  have eq: "To256 (ColorRGB cr cg cb) = ColorIndex (of_nat ?n)" by (rule To256_rgb)
  have ix: "unat (index (To256 (ColorRGB cr cg cb))) = ?n"
    by (simp only: eq index_ColorIndex unat_cube)
  have md: "mode (To256 (ColorRGB cr cg cb)) = ColorMode256"
    using cube_ge16 [of cr cg cb] by (simp only: eq mode_ColorIndex) (simp add: not_less)
  have lo: "16 \<le> ?n" by simp
  have hi: "?n \<le> 255" using cube_bound [of cr cg cb] by linarith
  have red: "To256 (ColorRGB 255 0 0) = ColorIndex 196"
    by (simp add: To256_def ColorRGB_def)
  have idn: "mode c \<noteq> ColorModeTrueColor \<longrightarrow> To256 c = c"
    by (simp add: To256_def)
  from eq ix md lo hi red idn show ?thesis
    unfolding quant_def by simp
qed

text \<open>The formula at pure red and at a mixed color, and the identity on an indexed and
  on the default color.\<close>

theorem To256_cube_formula_witness:
  "To256 (ColorRGB 255 0 0) = ColorIndex 196
   \<and> To256 (ColorRGB 10 128 250) = ColorIndex 39
   \<and> mode (To256 (ColorRGB 10 128 250)) = ColorMode256
   \<and> mode (ColorIndex 9) \<noteq> ColorModeTrueColor \<and> To256 (ColorIndex 9) = ColorIndex 9
   \<and> mode ColorDefault \<noteq> ColorModeTrueColor \<and> To256 ColorDefault = ColorDefault"
  using To256_cube_formula [of 10 128 250 "ColorIndex 9"]
    To256_cube_formula [of 255 0 0 ColorDefault]
  by (simp add: ColorIndex_def ColorDefault_def)


lemma coherent_ColorIndex: "coherent (ColorIndex i)"
  by (simp add: coherent_def ColorIndex_def not_less)

lemma mod8_lt16: "(i :: uint8) mod 8 < 16"
  by (simp add: word_less_nat_alt unat_mod)

lemma To16_ColorIndex:
  "To16 (ColorIndex i) =
     (if i < 16 then ColorIndex i
      else if 232 \<le> i then (if i < 244 then ColorBlack else ColorWhite)
      else ColorIndex (i mod 8))"
  by (simp add: To16_def ColorIndex_def Let_def)

text \<open>
  Claim C5. For every index \<open>i\<close>, \<^verbatim>\<open>To16 (ColorIndex i)\<close> has mode \<^verbatim>\<open>ColorMode16\<close> and an
  index of at most 15. It is the color itself when \<open>i < 16\<close>, black for \<open>232 \<le> i < 244\<close>,
  white for \<open>244 \<le> i\<close>, and the color of index \<open>i mod 8\<close> for the cube \<open>16 \<le> i \<le> 231\<close>.
  A true color is first taken to the 256 tier by \<^verbatim>\<open>To256\<close> and then mapped by the same rule.
\<close>

theorem To16_of_index:
  "mode (To16 (ColorIndex i)) = ColorMode16
   \<and> unat (index (To16 (ColorIndex i))) \<le> 15
   \<and> (i < 16 \<longrightarrow> To16 (ColorIndex i) = ColorIndex i)
   \<and> (232 \<le> i \<and> i < 244 \<longrightarrow> To16 (ColorIndex i) = ColorBlack)
   \<and> (244 \<le> i \<longrightarrow> To16 (ColorIndex i) = ColorWhite)
   \<and> (16 \<le> i \<and> i \<le> 231 \<longrightarrow>
        To16 (ColorIndex i) = ColorIndex (i mod 8)
        \<and> unat (index (To16 (ColorIndex i))) = unat i mod 8)
   \<and> To16 (ColorRGB cr cg cb) = To16 (To256 (ColorRGB cr cg cb))"
proof -
  have md: "mode (To16 (ColorIndex i)) = ColorMode16"
    using mod8_lt16 [of i]
    by (simp add: To16_ColorIndex mode_ColorIndex ColorBlack_def ColorWhite_def)
  have "index (To16 (ColorIndex i)) < 16"
    using mod8_lt16 [of i]
    by (simp add: To16_ColorIndex index_ColorIndex ColorBlack_def ColorWhite_def)
  then have ix: "unat (index (To16 (ColorIndex i))) \<le> 15"
    by (simp add: word_less_nat_alt)
  have idn: "i < 16 \<longrightarrow> To16 (ColorIndex i) = ColorIndex i"
    by (simp add: To16_ColorIndex)
  have blk: "232 \<le> i \<and> i < 244 \<longrightarrow> To16 (ColorIndex i) = ColorBlack"
    by (auto simp: To16_ColorIndex word_less_nat_alt word_le_nat_alt)
  have wht: "244 \<le> i \<longrightarrow> To16 (ColorIndex i) = ColorWhite"
    by (auto simp: To16_ColorIndex word_less_nat_alt word_le_nat_alt)
  have cube: "16 \<le> i \<and> i \<le> 231 \<longrightarrow>
        To16 (ColorIndex i) = ColorIndex (i mod 8)
        \<and> unat (index (To16 (ColorIndex i))) = unat i mod 8"
    by (auto simp: To16_ColorIndex index_ColorIndex word_less_nat_alt word_le_nat_alt unat_mod)
  have tc: "To16 (ColorRGB cr cg cb) = To16 (To256 (ColorRGB cr cg cb))"
  proof -
    have m: "mode (To256 (ColorRGB cr cg cb)) = ColorMode256"
      using To256_rgb [of cr cg cb] cube_ge16 [of cr cg cb]
      by (simp only: mode_ColorIndex) (simp add: not_less)
    show ?thesis
      by (simp add: To16_def [of "ColorRGB cr cg cb"] To16_def [of "To256 (ColorRGB cr cg cb)"] m
            mode_ColorRGB)
  qed
  from md ix idn blk wht cube tc show ?thesis by blast
qed

text \<open>One index from each of the four ranges, and a true color.\<close>

theorem To16_of_index_witness:
  "To16 (ColorIndex 9) = ColorIndex 9
   \<and> To16 (ColorIndex 240) = ColorBlack
   \<and> To16 (ColorIndex 250) = ColorWhite
   \<and> To16 (ColorIndex 196) = ColorIndex 4
   \<and> mode (To16 (ColorIndex 196)) = ColorMode16
   \<and> To16 (ColorRGB 255 0 0) = ColorIndex 4"
  using To16_of_index [of 9] To16_of_index [of 240] To16_of_index [of 250]
    To16_of_index [of 196 255 0 0]
  by (simp add: To256_def ColorRGB_def ColorIndex_def)

lemma coherent_To256: "coherent c \<Longrightarrow> coherent (To256 c)"
  by (simp add: To256_def Let_def coherent_ColorIndex)

lemma coherent_To16: "coherent c \<Longrightarrow> coherent (To16 c)"
  by (simp add: To16_def Let_def coherent_ColorIndex coherent_To256 ColorBlack_def ColorWhite_def)

text \<open>
  Claim C9. Every color made by the constructors, the named variables and the conversions
  is coherent: mode \<^verbatim>\<open>ColorMode16\<close> comes with an index below 16 and mode
  \<^verbatim>\<open>ColorMode256\<close> with an index of at least 16. Both conversions keep any coherent color
  coherent.
\<close>

theorem constructed_coherent:
  "(constructed c \<longrightarrow> coherent c)
   \<and> (coherent d \<longrightarrow> coherent (To256 d) \<and> coherent (To16 d))"
proof -
  have "coherent c" if "constructed c"
    using that
  proof induction
    case by_ColorDefault
    show ?case by (simp add: coherent_def ColorDefault_def)
  next
    case (by_ColorRGB cr cg cb)
    show ?case by (simp add: coherent_def ColorRGB_def)
  next
    case (by_To256 c)
    then show ?case by (simp add: coherent_To256)
  next
    case (by_To16 c)
    then show ?case by (simp add: coherent_To16)
  qed (simp_all add: coherent_ColorIndex ColorBlack_def ColorRed_def ColorGreen_def
        ColorYellow_def ColorBlue_def ColorMagenta_def ColorCyan_def ColorWhite_def)
  then show ?thesis by (simp add: coherent_To256 coherent_To16)
qed

text \<open>A true color taken through both conversions, and an indexed color.\<close>

theorem constructed_coherent_witness:
  "constructed (To16 (To256 (ColorRGB 10 128 250)))
   \<and> coherent (To16 (To256 (ColorRGB 10 128 250)))
   \<and> mode (To16 (To256 (ColorRGB 10 128 250))) = ColorMode16
   \<and> coherent (ColorIndex 200) \<and> coherent (To256 (ColorIndex 200))
   \<and> coherent (To16 (ColorIndex 200))"
  using constructed_coherent [of "To16 (To256 (ColorRGB 10 128 250))" "ColorIndex 200"]
  by (simp add: constructed.intros coherent_ColorIndex)
    (simp add: To16_def To256_def ColorRGB_def ColorIndex_def)

lemma unat_add8: "unat (k :: uint8) + unat i < 256 \<Longrightarrow> unat (k + i) = unat k + unat i"
  by (simp add: unat_word_ariths)

text \<open>
  Claim C6. The escape sequence of a color, as foreground (\<open>True\<close>) and as background
  (\<open>False\<close>), row by row of the wire table: default, 16-color below 8, 16-color from 8 to
  15, 256-color, true color. The numbers are those of the table over the naturals: the
  \<^verbatim>\<open>uint8\<close> sums of the code do not wrap in these ranges.
\<close>

theorem ansiCode_table:
  "(mode c = ColorModeDefault \<longrightarrow>
      ansiCode c True = ESC # ''[39m'' \<and> ansiCode c False = ESC # ''[49m'')
   \<and> (mode c = ColorMode16 \<and> index c < 8 \<longrightarrow>
      ansiCode c True = ESC # ''['' @ decimal (30 + unat (index c)) @ ''m''
      \<and> ansiCode c False = ESC # ''['' @ decimal (40 + unat (index c)) @ ''m'')
   \<and> (mode c = ColorMode16 \<and> 8 \<le> index c \<and> index c \<le> 15 \<longrightarrow>
      ansiCode c True = ESC # ''['' @ decimal (90 + unat (index c) - 8) @ ''m''
      \<and> ansiCode c False = ESC # ''['' @ decimal (100 + unat (index c) - 8) @ ''m'')
   \<and> (mode c = ColorMode256 \<longrightarrow>
      ansiCode c True = ESC # ''[38;5;'' @ decimal (unat (index c)) @ ''m''
      \<and> ansiCode c False = ESC # ''[48;5;'' @ decimal (unat (index c)) @ ''m'')
   \<and> (mode c = ColorModeTrueColor \<longrightarrow>
      ansiCode c True = ESC # ''[38;2;'' @ decimal (unat (r c)) @ '';''
          @ decimal (unat (g c)) @ '';'' @ decimal (unat (b c)) @ ''m''
      \<and> ansiCode c False = ESC # ''[48;2;'' @ decimal (unat (r c)) @ '';''
          @ decimal (unat (g c)) @ '';'' @ decimal (unat (b c)) @ ''m'')"
proof -
  have lo: "unat (k + index c) = unat k + unat (index c)"
    if "index c < 8" "unat k \<le> 100" for k :: uint8
    using that by (intro unat_add8) (simp add: word_less_nat_alt)
  have hi: "unat (k + index c - 8) = unat k + unat (index c) - 8"
    if "8 \<le> index c" "index c \<le> 15" "unat k \<le> 100" for k :: uint8
  proof -
    from that have s: "unat (k + index c) = unat k + unat (index c)"
      by (intro unat_add8) (simp add: word_le_nat_alt)
    from that have "8 \<le> k + index c"
      by (simp add: word_le_nat_alt s)
    then show ?thesis by (simp add: unat_sub s)
  qed
  have d: "mode c = ColorModeDefault \<longrightarrow>
      ansiCode c True = ESC # ''[39m'' \<and> ansiCode c False = ESC # ''[49m''"
    by (simp add: ansiCode_def)
  have l: "mode c = ColorMode16 \<and> index c < 8 \<longrightarrow>
      ansiCode c True = ESC # ''['' @ decimal (30 + unat (index c)) @ ''m''
      \<and> ansiCode c False = ESC # ''['' @ decimal (40 + unat (index c)) @ ''m''"
    using lo [of 30] lo [of 40] by (simp add: ansiCode_def)
  have h: "mode c = ColorMode16 \<and> 8 \<le> index c \<and> index c \<le> 15 \<longrightarrow>
      ansiCode c True = ESC # ''['' @ decimal (90 + unat (index c) - 8) @ ''m''
      \<and> ansiCode c False = ESC # ''['' @ decimal (100 + unat (index c) - 8) @ ''m''"
  proof (intro impI)
    assume a: "mode c = ColorMode16 \<and> 8 \<le> index c \<and> index c \<le> 15"
    then have n: "\<not> index c < 8" by (simp add: not_less)
    from a have a1: "8 \<le> index c" and a2: "index c \<le> 15" by simp_all
    have "unat (90 + index c - 8) = 90 + unat (index c) - 8"
      and "unat (100 + index c - 8) = 100 + unat (index c) - 8"
      using hi [OF a1 a2, of 90] hi [OF a1 a2, of 100] by simp_all
    with a n show "ansiCode c True = ESC # ''['' @ decimal (90 + unat (index c) - 8) @ ''m''
      \<and> ansiCode c False = ESC # ''['' @ decimal (100 + unat (index c) - 8) @ ''m''"
      by (simp only: ansiCode_def ColorMode.case if_True if_False simp_thms)
  qed
  have x: "mode c = ColorMode256 \<longrightarrow>
      ansiCode c True = ESC # ''[38;5;'' @ decimal (unat (index c)) @ ''m''
      \<and> ansiCode c False = ESC # ''[48;5;'' @ decimal (unat (index c)) @ ''m''"
    by (simp add: ansiCode_def)
  have t: "mode c = ColorModeTrueColor \<longrightarrow>
      ansiCode c True = ESC # ''[38;2;'' @ decimal (unat (r c)) @ '';''
          @ decimal (unat (g c)) @ '';'' @ decimal (unat (b c)) @ ''m''
      \<and> ansiCode c False = ESC # ''[48;2;'' @ decimal (unat (r c)) @ '';''
          @ decimal (unat (g c)) @ '';'' @ decimal (unat (b c)) @ ''m''"
    by (simp add: ansiCode_def)
  from d l h x t show ?thesis by blast
qed

text \<open>The bytes of each row of the table at concrete colors.\<close>

theorem ansiCode_table_witness:
  "ansiCode ColorDefault True = ESC # ''[39m''
   \<and> ansiCode ColorDefault False = ESC # ''[49m''
   \<and> ansiCode ColorRed True = ESC # ''[31m''
   \<and> ansiCode ColorRed False = ESC # ''[41m''
   \<and> ansiCode (ColorIndex 9) True = ESC # ''[91m''
   \<and> ansiCode (ColorIndex 15) False = ESC # ''[107m''
   \<and> ansiCode (ColorIndex 196) True = ESC # ''[38;5;196m''
   \<and> ansiCode (ColorIndex 16) False = ESC # ''[48;5;16m''
   \<and> ansiCode (ColorRGB 255 7 30) True = ESC # ''[38;2;255;7;30m''
   \<and> ansiCode (ColorRGB 0 128 9) False = ESC # ''[48;2;0;128;9m''"
  using ansiCode_table [of ColorDefault] ansiCode_table [of ColorRed]
    ansiCode_table [of "ColorIndex 9"] ansiCode_table [of "ColorIndex 15"]
    ansiCode_table [of "ColorIndex 196"] ansiCode_table [of "ColorIndex 16"]
    ansiCode_table [of "ColorRGB 255 7 30"] ansiCode_table [of "ColorRGB 0 128 9"]
  by (simp add: ColorDefault_def ColorRed_def ColorIndex_def ColorRGB_def digit_def decimal.simps)

section \<open>Properties of the screen buffer\<close>


lemma flat_index_bound:
  fixes x y w h :: int
  assumes "0 \<le> x" "x < w" "0 \<le> y" "y < h"
  shows "0 \<le> y * w + x" and "y * w + x < w * h"
proof -
  from assms have w: "0 < w" by linarith
  from assms w show "0 \<le> y * w + x" by simp
  from assms have "y + 1 \<le> h" by simp
  with w have "(y + 1) * w \<le> h * w" by (intro mult_right_mono) simp_all
  then have "y * w + w \<le> w * h" by (simp add: algebra_simps)
  with assms show "y * w + x < w * h" by linarith
qed

lemma flat_index_less:
  fixes x x' y y' w :: int
  assumes "0 \<le> x" "x < w" "0 \<le> x'" "y < y'"
  shows "y * w + x < y' * w + x'"
proof -
  from assms have w: "0 < w" by linarith
  from assms have "y + 1 \<le> y'" by simp
  with w have "(y + 1) * w \<le> y' * w" by (intro mult_right_mono) simp_all
  then have "y * w + w \<le> y' * w" by (simp add: algebra_simps)
  with assms show ?thesis by linarith
qed

lemma flat_index_inj:
  fixes x x' y y' w :: int
  assumes "0 \<le> x" "x < w" "0 \<le> x'" "x' < w" "y * w + x = y' * w + x'"
  shows "x = x' \<and> y = y'"
proof -
  have "\<not> y < y'" using flat_index_less [of x w x' y y'] assms by auto
  moreover have "\<not> y' < y" using flat_index_less [of x' w x y' y] assms by auto
  ultimately have "y = y'" by simp
  with assms show ?thesis by simp
qed

lemma in_range_index:
  assumes "screen_inv s" "in_range s x y"
  shows "0 \<le> y * width s + x" and "y * width s + x < int (length (cells s))"
  using assms flat_index_bound [of x "width s" y "height s"]
  by (simp_all add: screen_inv_def in_range_def)

lemma GetCell_in_range:
  "screen_inv s \<Longrightarrow> in_range s x y \<Longrightarrow>
     GetCell s x y = Inr (cells s ! nat (y * width s + x))"
  using in_range_index [of s x y]
  by (simp add: GetCell_def cell_at_def in_range_def)

lemma GetCell_out_of_range:
  "\<not> in_range s x y \<Longrightarrow> GetCell s x y = Inr (NewCell 32 ColorDefault ColorDefault StyleNone)"
  by (auto simp: GetCell_def in_range_def)

lemma SetCell_in_range:
  "screen_inv s \<Longrightarrow> in_range s x y \<Longrightarrow>
     SetCell s x y c = Inr (s\<lparr>cells := (cells s)[nat (y * width s + x) := c]\<rparr>)"
  using in_range_index [of s x y]
  by (simp add: SetCell_def cell_put_def in_range_def)

lemma SetCell_out_of_range: "\<not> in_range s x y \<Longrightarrow> SetCell s x y c = Inr s"
  by (auto simp: SetCell_def in_range_def)

lemma SetCell_frame:
  assumes "screen_inv s"
  shows "\<exists>s'. SetCell s xa ya c = Inr s' \<and> screen_inv s' \<and> width s' = width s
           \<and> height s' = height s \<and> out s' = out s
           \<and> (\<forall>x y. GetCell s' x y
                       = (if x = xa \<and> y = ya \<and> in_range s xa ya then Inr c else GetCell s x y))"
proof (cases "in_range s xa ya")
  case False
  with assms show ?thesis by (simp add: SetCell_out_of_range)
next
  case True
  let ?s' = "s\<lparr>cells := (cells s)[nat (ya * width s + xa) := c]\<rparr>"
  have inv: "screen_inv ?s'" using assms by (simp add: screen_inv_def)
  have rng: "in_range ?s' x y = in_range s x y" for x y by (simp add: in_range_def)
  have get: "GetCell ?s' x y = (if x = xa \<and> y = ya then Inr c else GetCell s x y)" for x y
  proof (cases "in_range s x y")
    case False
    with True show ?thesis
      using GetCell_out_of_range [of ?s' x y] GetCell_out_of_range [of s x y] rng [of x y]
      by auto
  next
    case xy: True
    have i1: "0 \<le> y * width s + x" "y * width s + x < int (length (cells s))"
      using in_range_index [OF assms xy] by simp_all
    have i2: "0 \<le> ya * width s + xa" "ya * width s + xa < int (length (cells s))"
      using in_range_index [OF assms True] by simp_all
    have eq: "nat (y * width s + x) = nat (ya * width s + xa) \<longleftrightarrow> x = xa \<and> y = ya"
    proof
      assume "nat (y * width s + x) = nat (ya * width s + xa)"
      with i1 i2 have "y * width s + x = ya * width s + xa" by linarith
      then show "x = xa \<and> y = ya"
        using flat_index_inj [of x "width s" xa y ya] xy True by (simp add: in_range_def)
    qed simp
    have "GetCell ?s' x y = Inr (cells ?s' ! nat (y * width ?s' + x))"
      using inv xy rng [of x y] by (intro GetCell_in_range) simp_all
    also have "\<dots> = (if x = xa \<and> y = ya then Inr c else Inr (cells s ! nat (y * width s + x)))"
      using i1 i2 eq by (auto simp: nth_list_update)
    also have "\<dots> = (if x = xa \<and> y = ya then Inr c else GetCell s x y)"
      using GetCell_in_range [OF assms xy] by simp
    finally show ?thesis .
  qed
  from True assms inv get show ?thesis by (simp add: SetCell_in_range)
qed

lemma DrawText_from_frame:
  "screen_inv s \<Longrightarrow>
   \<exists>s'. DrawText_from s x y i rs fg bg style = Inr s' \<and> screen_inv s'
        \<and> width s' = width s \<and> height s' = height s \<and> out s' = out s
        \<and> (\<forall>x' y'. GetCell s' x' y'
              = (if y' = y \<and> in_range s x' y' \<and> x + i \<le> x' \<and> x' < x + i + int (length rs)
                 then Inr (NewCell (rs ! nat (x' - (x + i))) fg bg style)
                 else GetCell s x' y'))"
proof (induction rs arbitrary: s i)
  case Nil
  then show ?case by auto
next
  case (Cons ch runes)
  from SetCell_frame [OF Cons.prems, of "x + i" y "NewCell ch fg bg style"]
  obtain s1 where s1: "SetCell s (x + i) y (NewCell ch fg bg style) = Inr s1"
    "screen_inv s1" "width s1 = width s" "height s1 = height s" "out s1 = out s"
    and g1: "\<And>x' y'. GetCell s1 x' y'
       = (if x' = x + i \<and> y' = y \<and> in_range s (x + i) y then Inr (NewCell ch fg bg style)
          else GetCell s x' y')"
    by blast
  from Cons.IH [OF s1(2), of "i + 1"]
  obtain s' where s': "DrawText_from s1 x y (i + 1) runes fg bg style = Inr s'"
    "screen_inv s'" "width s' = width s1" "height s' = height s1" "out s' = out s1"
    and g': "\<And>x' y'. GetCell s' x' y'
       = (if y' = y \<and> in_range s1 x' y' \<and> x + (i + 1) \<le> x'
               \<and> x' < x + (i + 1) + int (length runes)
          then Inr (NewCell (runes ! nat (x' - (x + (i + 1)))) fg bg style)
          else GetCell s1 x' y')"
    by blast
  have rng: "in_range s1 x' y' = in_range s x' y'" for x' y'
    using s1 by (simp add: in_range_def)
  have "GetCell s' x' y'
       = (if y' = y \<and> in_range s x' y' \<and> x + i \<le> x'
               \<and> x' < x + i + int (length (ch # runes))
          then Inr (NewCell ((ch # runes) ! nat (x' - (x + i))) fg bg style)
          else GetCell s x' y')" for x' y'
  proof (cases "x' = x + i")
    case True
    then show ?thesis by (auto simp: g' g1 rng)
  next
    case False
    have "x + i \<le> x' \<Longrightarrow> (ch # runes) ! nat (x' - (x + i)) = runes ! nat (x' - (x + (i + 1)))"
    proof -
      assume "x + i \<le> x'"
      with False have "nat (x' - (x + i)) = Suc (nat (x' - (x + (i + 1))))" by linarith
      then show ?thesis by simp
    qed
    with False show ?thesis by (auto simp: g' g1 rng)
  qed
  with s1 s' show ?case by simp
qed

lemma DrawText_from_outside:
  "y < 0 \<or> height s \<le> y \<Longrightarrow> DrawText_from s x y i rs fg bg style = Inr s"
  by (induction rs arbitrary: i) (auto simp: SetCell_def)

lemma go_int_id: "0 \<le> i \<Longrightarrow> i < 2 ^ 63 \<Longrightarrow> go_int i = i"
  by (simp add: go_int_def)

lemma make_cells_fits:
  assumes "0 \<le> n" "n \<le> limit" "limit < 2 ^ 63"
  shows "make_cells limit (go_int n) = Inr (replicate (nat n) zeroCell)"
proof -
  from assms have "go_int n = n" by (intro go_int_id) linarith+
  with assms show ?thesis by (simp add: make_cells_def)
qed

lemma NewScreen_inv:
  assumes "0 < w" "0 < h" "w * h \<le> limit" "limit < 2 ^ 63"
  shows "\<exists>s. NewScreen limit stdout w h = Inr s \<and> screen_inv s \<and> Size s = (w, h)
           \<and> (\<forall>c \<in> set (cells s). c = NewCell 32 ColorDefault ColorDefault StyleNone)"
proof -
  from assms have p: "0 \<le> w * h" by simp
  have mk: "make_cells limit (go_int (w * h)) = Inr (replicate (nat (w * h)) zeroCell)"
    using p assms(3,4) by (rule make_cells_fits)
  from p have "int (nat (w * h)) = w * h" by simp
  with assms(1,2) show ?thesis
    by (simp add: NewScreen_def mk Clear_def screen_inv_def Size_def)
qed

text \<open>
  Claim C1. On a buffer of size \<open>w \<times> h\<close>: at a coordinate with \<open>0 \<le> x < w\<close> and
  \<open>0 \<le> y < h\<close>, \<^verbatim>\<open>SetCell\<close> followed by \<^verbatim>\<open>GetCell\<close> at that coordinate returns a cell
  \<^verbatim>\<open>Equal\<close> to the one set; at any other coordinate \<^verbatim>\<open>SetCell\<close> returns the buffer as it
  was and \<^verbatim>\<open>GetCell\<close> returns the default cell (space, default colors, no style). Neither
  call panics.
\<close>

theorem SetCell_then_GetCell:
  assumes "screen_inv s"
  shows "(0 \<le> x \<and> x < width s \<and> 0 \<le> y \<and> y < height s \<longrightarrow>
            (\<exists>s' c'. SetCell s x y c = Inr s' \<and> GetCell s' x y = Inr c' \<and> Equal c' c))
         \<and> (x < 0 \<or> width s \<le> x \<or> y < 0 \<or> height s \<le> y \<longrightarrow>
            SetCell s x y c = Inr s
            \<and> GetCell s x y = Inr (NewCell 32 ColorDefault ColorDefault StyleNone))"
proof (intro conjI impI)
  assume "0 \<le> x \<and> x < width s \<and> 0 \<le> y \<and> y < height s"
  then have r: "in_range s x y" by (simp add: in_range_def)
  from SetCell_frame [OF assms, of x y c] r
  show "\<exists>s' c'. SetCell s x y c = Inr s' \<and> GetCell s' x y = Inr c' \<and> Equal c' c"
    by (auto simp: Equal_def)
next
  assume "x < 0 \<or> width s \<le> x \<or> y < 0 \<or> height s \<le> y"
  then have r: "\<not> in_range s x y" by (auto simp: in_range_def)
  then show "SetCell s x y c = Inr s" by (rule SetCell_out_of_range)
  from r show "GetCell s x y = Inr (NewCell 32 ColorDefault ColorDefault StyleNone)"
    by (rule GetCell_out_of_range)
qed

text \<open>On the 3 by 2 buffer: a write inside, one past the right edge, one above the top.\<close>

theorem SetCell_then_GetCell_witness:
  "screen_inv demo
   \<and> (\<exists>s' c'. SetCell demo 1 1 (NewCell 88 ColorRed ColorBlue 1) = Inr s'
         \<and> GetCell s' 1 1 = Inr c' \<and> Equal c' (NewCell 88 ColorRed ColorBlue 1))
   \<and> SetCell demo 3 0 (NewCell 88 ColorRed ColorBlue 1) = Inr demo
   \<and> GetCell demo 3 0 = Inr (NewCell 32 ColorDefault ColorDefault StyleNone)
   \<and> SetCell demo 0 (- 1) (NewCell 88 ColorRed ColorBlue 1) = Inr demo
   \<and> GetCell demo 0 (- 1) = Inr (NewCell 32 ColorDefault ColorDefault StyleNone)"
proof -
  have inv: "screen_inv demo" by (simp add: screen_inv_def demo_def)
  show ?thesis
    using inv SetCell_then_GetCell [OF inv, of 1 1 "NewCell 88 ColorRed ColorBlue 1"]
      SetCell_then_GetCell [OF inv, of 3 0 "NewCell 88 ColorRed ColorBlue 1"]
      SetCell_then_GetCell [OF inv, of 0 "- 1" "NewCell 88 ColorRed ColorBlue 1"]
    by (simp add: demo_def)
qed

text \<open>
  Claim C10. \<^verbatim>\<open>DrawText\<close> never panics and keeps the dimensions. Afterwards every
  coordinate \<open>(x', y)\<close> of the buffer with \<open>x \<le> x' < x + length text\<close> holds \<^verbatim>\<open>NewCell\<close>
  of character \<open>x' - x\<close> with the given colors and style, whatever the sign of \<open>x\<close>;
  every other coordinate reads as before; and a \<open>y\<close> outside the buffer leaves the buffer
  as it was.
\<close>

theorem DrawText_clips_per_character:
  assumes "screen_inv s"
  shows "\<exists>s'. DrawText s x y rs fg bg style = Inr s'
           \<and> width s' = width s \<and> height s' = height s \<and> out s' = out s
           \<and> (\<forall>x' y'. GetCell s' x' y'
                 = (if y' = y \<and> 0 \<le> x' \<and> x' < width s \<and> 0 \<le> y \<and> y < height s
                       \<and> x \<le> x' \<and> x' < x + int (length rs)
                    then Inr (NewCell (rs ! nat (x' - x)) fg bg style)
                    else GetCell s x' y'))
           \<and> ((y < 0 \<or> height s \<le> y) \<longrightarrow> s' = s)"
proof -
  from DrawText_from_frame [OF assms, of x y 0 rs fg bg style]
  obtain s' where s': "DrawText_from s x y 0 rs fg bg style = Inr s'"
    "width s' = width s" "height s' = height s" "out s' = out s"
    and g: "\<And>x' y'. GetCell s' x' y'
       = (if y' = y \<and> in_range s x' y' \<and> x + 0 \<le> x' \<and> x' < x + 0 + int (length rs)
          then Inr (NewCell (rs ! nat (x' - (x + 0))) fg bg style)
          else GetCell s x' y')"
    by blast
  have "GetCell s' x' y'
         = (if y' = y \<and> 0 \<le> x' \<and> x' < width s \<and> 0 \<le> y \<and> y < height s
               \<and> x \<le> x' \<and> x' < x + int (length rs)
            then Inr (NewCell (rs ! nat (x' - x)) fg bg style)
            else GetCell s x' y')" for x' y'
    by (auto simp: g in_range_def)
  moreover have "s' = s" if "y < 0 \<or> height s \<le> y"
    using DrawText_from_outside [of y s x 0 rs fg bg style] that s' by simp
  ultimately show ?thesis using s' by (simp add: DrawText_def)
qed

text \<open>Five characters drawn from column \<open>-1\<close> of the bottom row of the 3 by 2 buffer:
  the first and the last are dropped. A row below the buffer changes nothing.\<close>

theorem DrawText_clips_per_character_witness:
  "screen_inv demo
   \<and> (\<exists>s'. DrawText demo (- 1) 1 [65, 66, 67, 68, 69] ColorRed ColorBlue 1 = Inr s'
         \<and> GetCell s' 0 1 = Inr (NewCell 66 ColorRed ColorBlue 1)
         \<and> GetCell s' 1 1 = Inr (NewCell 67 ColorRed ColorBlue 1)
         \<and> GetCell s' 2 1 = Inr (NewCell 68 ColorRed ColorBlue 1)
         \<and> GetCell s' 0 0 = GetCell demo 0 0
         \<and> GetCell s' 2 0 = GetCell demo 2 0)
   \<and> DrawText demo 0 2 [65, 66] ColorRed ColorBlue 1 = Inr demo"
proof -
  have inv: "screen_inv demo" by (simp add: screen_inv_def demo_def)
  have w: "width demo = 3" and h: "height demo = 2" by (simp_all add: demo_def)
  from DrawText_clips_per_character [OF inv, of "- 1" 1 "[65, 66, 67, 68, 69]" ColorRed ColorBlue 1]
  have a: "\<exists>s'. DrawText demo (- 1) 1 [65, 66, 67, 68, 69] ColorRed ColorBlue 1 = Inr s'
         \<and> GetCell s' 0 1 = Inr (NewCell 66 ColorRed ColorBlue 1)
         \<and> GetCell s' 1 1 = Inr (NewCell 67 ColorRed ColorBlue 1)
         \<and> GetCell s' 2 1 = Inr (NewCell 68 ColorRed ColorBlue 1)
         \<and> GetCell s' 0 0 = GetCell demo 0 0
         \<and> GetCell s' 2 0 = GetCell demo 2 0"
    by (auto simp: w h)
  from DrawText_clips_per_character [OF inv, of 0 2 "[65, 66]" ColorRed ColorBlue 1]
  have b: "DrawText demo 0 2 [65, 66] ColorRed ColorBlue 1 = Inr demo"
    by (auto simp: w h)
  from inv a b show ?thesis by blast
qed

lemma row_fits:
  fixes y w n h :: int
  assumes "0 \<le> y" "y < h" "0 \<le> w" "h * w \<le> n"
  shows "y * w + w \<le> n"
proof -
  from assms have "y + 1 \<le> h" by simp
  with assms have "(y + 1) * w \<le> h * w" by (intro mult_right_mono) simp_all
  with assms show ?thesis by (simp add: algebra_simps)
qed

lemma Resize_cols_copies:
  assumes "0 \<le> y" "0 \<le> x" "0 \<le> oldWidth" "0 \<le> newWidth"
    and "minWidth \<le> oldWidth" "minWidth \<le> newWidth"
    and "y * oldWidth + oldWidth \<le> int (length old)"
    and "y * newWidth + newWidth \<le> int (length newCells)"
    and "int (length newCells) < 2 ^ 63"
  shows "\<exists>res. Resize_cols old oldWidth newWidth minWidth y x newCells = Inr res
           \<and> length res = length newCells
           \<and> (\<forall>k. x \<le> k \<and> k < minWidth \<longrightarrow>
                  res ! nat (y * newWidth + k) = old ! nat (y * oldWidth + k))
           \<and> (\<forall>j. \<not> (y * newWidth + x \<le> int j \<and> int j < y * newWidth + minWidth) \<longrightarrow>
                  res ! j = newCells ! j)"
  using assms
proof (induction old oldWidth newWidth minWidth y x newCells rule: Resize_cols.induct)
  case (1 old oldWidth newWidth minWidth y x newCells)
  show ?case
  proof (cases "x < minWidth")
    case False
    then show ?thesis by (subst Resize_cols.simps) auto
  next
    case True
    let ?i = "y * oldWidth + x" and ?j = "y * newWidth + x"
    let ?c = "old ! nat ?i"
    let ?n1 = "newCells[nat ?j := ?c]"
    from "1.prems" True have i: "0 \<le> ?i" "?i < int (length old)" by simp_all
    from "1.prems" True have j: "0 \<le> ?j" "?j < int (length newCells)" by simp_all
    have rd: "cell_at old ?i = Inr ?c" using i by (simp add: cell_at_def)
    have yw: "0 \<le> y * newWidth" using "1.prems" by simp
    have small: "?j < 2 ^ 63" using j(2) "1.prems" by linarith
    have "y * newWidth < 2 ^ 63" using small "1.prems" by linarith
    with yw have "go_int (y * newWidth) = y * newWidth" by (rule go_int_id)
    with j(1) small have gj: "go_int (go_int (y * newWidth) + x) = ?j"
      by (simp add: go_int_id)
    have wr: "cell_put newCells (go_int (go_int (y * newWidth) + x)) ?c = Inr ?n1"
      using j by (simp add: gj cell_put_def)
    have "\<exists>res. Resize_cols old oldWidth newWidth minWidth y (x + 1) ?n1 = Inr res
           \<and> length res = length ?n1
           \<and> (\<forall>k. x + 1 \<le> k \<and> k < minWidth \<longrightarrow>
                  res ! nat (y * newWidth + k) = old ! nat (y * oldWidth + k))
           \<and> (\<forall>j. \<not> (y * newWidth + (x + 1) \<le> int j \<and> int j < y * newWidth + minWidth) \<longrightarrow>
                  res ! j = ?n1 ! j)"
      using "1.prems" True by (intro "1.IH" [OF True rd wr]) simp_all
    then obtain res where res: "Resize_cols old oldWidth newWidth minWidth y (x + 1) ?n1 = Inr res"
      "length res = length newCells"
      and inside: "\<And>k. x + 1 \<le> k \<Longrightarrow> k < minWidth \<Longrightarrow>
                  res ! nat (y * newWidth + k) = old ! nat (y * oldWidth + k)"
      and outside: "\<And>j. \<not> (y * newWidth + (x + 1) \<le> int j \<and> int j < y * newWidth + minWidth) \<Longrightarrow>
                  res ! j = ?n1 ! j"
      by auto
    have run: "Resize_cols old oldWidth newWidth minWidth y x newCells = Inr res"
      using True rd wr res(1) by (subst Resize_cols.simps) simp
    have at_x: "res ! nat ?j = ?c"
    proof -
      have "res ! nat ?j = ?n1 ! nat ?j" using j by (intro outside) simp
      then show ?thesis using j by simp
    qed
    have in': "res ! nat (y * newWidth + k) = old ! nat (y * oldWidth + k)"
      if "x \<le> k" "k < minWidth" for k
    proof (cases "k = x")
      case True
      then show ?thesis using at_x by simp
    next
      case False
      with that show ?thesis by (intro inside) simp_all
    qed
    have out': "res ! j = newCells ! j"
      if "\<not> (y * newWidth + x \<le> int j \<and> int j < y * newWidth + minWidth)" for j
    proof -
      from that have "res ! j = ?n1 ! j" by (intro outside) auto
      moreover have "j \<noteq> nat ?j"
      proof
        assume "j = nat ?j"
        with j(1) have "int j = ?j" by linarith
        with that True show False by linarith
      qed
      ultimately show ?thesis by simp
    qed
    from run res(2) in' out' show ?thesis by blast
  qed
qed


lemma Resize_rows_copies:
  assumes "0 \<le> y" "0 \<le> oldWidth" "0 \<le> newWidth"
    and "minWidth \<le> oldWidth" "minWidth \<le> newWidth"
    and "minHeight * oldWidth \<le> int (length old)"
    and "minHeight * newWidth \<le> int (length newCells)"
    and "int (length newCells) < 2 ^ 63"
  shows "\<exists>res. Resize_rows old oldWidth newWidth minWidth minHeight y newCells = Inr res
           \<and> length res = length newCells
           \<and> (\<forall>row k. y \<le> row \<and> row < minHeight \<and> 0 \<le> k \<and> k < minWidth \<longrightarrow>
                  res ! nat (row * newWidth + k) = old ! nat (row * oldWidth + k))
           \<and> (\<forall>j. \<not> copied newWidth minWidth minHeight y j \<longrightarrow> res ! j = newCells ! j)"
  using assms
proof (induction old oldWidth newWidth minWidth minHeight y newCells rule: Resize_rows.induct)
  case (1 old oldWidth newWidth minWidth minHeight y newCells)
  show ?case
  proof (cases "y < minHeight")
    case False
    then show ?thesis by (subst Resize_rows.simps) auto
  next
    case True
    have fo: "y * oldWidth + oldWidth \<le> int (length old)"
      using "1.prems" True by (intro row_fits [of y minHeight]) simp_all
    have fn: "y * newWidth + newWidth \<le> int (length newCells)"
      using "1.prems" True by (intro row_fits [of y minHeight]) simp_all
    from Resize_cols_copies [of y 0 oldWidth newWidth minWidth old newCells] "1.prems" fo fn
    obtain n1 where n1: "Resize_cols old oldWidth newWidth minWidth y 0 newCells = Inr n1"
      "length n1 = length newCells"
      and in1: "\<And>k. 0 \<le> k \<Longrightarrow> k < minWidth \<Longrightarrow>
                  n1 ! nat (y * newWidth + k) = old ! nat (y * oldWidth + k)"
      and out1: "\<And>j. \<not> (y * newWidth + 0 \<le> int j \<and> int j < y * newWidth + minWidth) \<Longrightarrow>
                  n1 ! j = newCells ! j"
      by blast
    have "\<exists>res. Resize_rows old oldWidth newWidth minWidth minHeight (y + 1) n1 = Inr res
           \<and> length res = length n1
           \<and> (\<forall>row k. y + 1 \<le> row \<and> row < minHeight \<and> 0 \<le> k \<and> k < minWidth \<longrightarrow>
                  res ! nat (row * newWidth + k) = old ! nat (row * oldWidth + k))
           \<and> (\<forall>j. \<not> copied newWidth minWidth minHeight (y + 1) j \<longrightarrow> res ! j = n1 ! j)"
      using "1.prems" n1(2) by (intro "1.IH" [OF True n1(1)]) simp_all
    then obtain res where
      res: "Resize_rows old oldWidth newWidth minWidth minHeight (y + 1) n1 = Inr res"
      "length res = length newCells"
      and inside: "\<And>row k. y + 1 \<le> row \<Longrightarrow> row < minHeight \<Longrightarrow> 0 \<le> k \<Longrightarrow> k < minWidth \<Longrightarrow>
                  res ! nat (row * newWidth + k) = old ! nat (row * oldWidth + k)"
      and outside: "\<And>j. \<not> copied newWidth minWidth minHeight (y + 1) j \<Longrightarrow> res ! j = n1 ! j"
      using n1(2) by auto
    have run: "Resize_rows old oldWidth newWidth minWidth minHeight y newCells = Inr res"
      using True n1(1) res(1) by (subst Resize_rows.simps) simp
    have in': "res ! nat (row * newWidth + k) = old ! nat (row * oldWidth + k)"
      if "y \<le> row" "row < minHeight" "0 \<le> k" "k < minWidth" for row k
    proof (cases "row = y")
      case False
      with that show ?thesis by (intro inside) simp_all
    next
      case True
      have nn: "0 \<le> y * newWidth + k" using "1.prems" that by simp
      have "\<not> copied newWidth minWidth minHeight (y + 1) (nat (y * newWidth + k))"
      proof
        assume "copied newWidth minWidth minHeight (y + 1) (nat (y * newWidth + k))"
        then obtain row' k' where c: "y + 1 \<le> row'" "0 \<le> k'" "k' < minWidth"
          "int (nat (y * newWidth + k)) = row' * newWidth + k'"
          by (auto simp: copied_def)
        from c(4) nn have "y * newWidth + k = row' * newWidth + k'" by simp
        with flat_index_inj [of k newWidth k' y row'] that c "1.prems"
        show False by simp
      qed
      then have "res ! nat (y * newWidth + k) = n1 ! nat (y * newWidth + k)"
        by (rule outside)
      with in1 [of k] that True show ?thesis by simp
    qed
    have out': "res ! j = newCells ! j" if n: "\<not> copied newWidth minWidth minHeight y j" for j
    proof -
      have "\<not> copied newWidth minWidth minHeight (y + 1) j"
        using n by (auto simp: copied_def)
      then have "res ! j = n1 ! j" by (rule outside)
      moreover have "\<not> (y * newWidth + 0 \<le> int j \<and> int j < y * newWidth + minWidth)"
      proof
        assume a: "y * newWidth + 0 \<le> int j \<and> int j < y * newWidth + minWidth"
        have "copied newWidth minWidth minHeight y j"
          unfolding copied_def
          using a True by (intro exI [of _ y] exI [of _ "int j - y * newWidth"]) simp
        with n show False by simp
      qed
      then have "n1 ! j = newCells ! j" by (rule out1)
      ultimately show ?thesis by simp
    qed
    from run res(2) in' out' show ?thesis by blast
  qed
qed

lemma min_if: "(if (a :: int) < c then a else c) = min a c"
  by simp

text \<open>
  Claim C7, as stated, fails for dimensions whose product does not fit: \<^verbatim>\<open>Resize\<close> makes
  the new slice with \<^verbatim>\<open>width*height\<close> cells as the machine computes the product. For
  \<open>2^32\<close> by \<open>2^32\<close> the product wraps to 0, the slice is empty and the first assignment of
  the copy loop panics; for \<open>2^31\<close> by \<open>2^31\<close> on a runtime that allocates at most \<open>2^40\<close>
  cells, \<^verbatim>\<open>make\<close> panics. Neither call returns, so afterwards there is no size
  \<open>(w2, h2)\<close>.
\<close>

theorem Resize_huge_dimensions_panic:
  "screen_inv demo
   \<and> (0 :: int) < 2 ^ 32
   \<and> Resize (2 ^ 40) demo (2 ^ 32) (2 ^ 32) = Inl IndexOutOfRange
   \<and> (0 :: int) < 2 ^ 31
   \<and> Resize (2 ^ 40) demo (2 ^ 31) (2 ^ 31) = Inl LenOutOfRange"
proof -
  have inv: "screen_inv demo" by (simp add: screen_inv_def demo_def)
  have a: "Resize (2 ^ 40) demo (2 ^ 32) (2 ^ 32) = Inl IndexOutOfRange"
    by (simp add: Resize_def make_cells_def go_int_def demo_def Resize_rows.simps
        Resize_cols.simps cell_at_def cell_put_def)
  have b: "Resize (2 ^ 40) demo (2 ^ 31) (2 ^ 31) = Inl LenOutOfRange"
    by (simp add: Resize_def make_cells_def go_int_def)
  from inv a b show ?thesis by simp
qed

text \<open>
  Claim C7, amended. \<^verbatim>\<open>Resize\<close> with a non-positive dimension returns the buffer as it
  was: width, height and every cell. With both dimensions positive and their product
  \<open>w2 * h2\<close> within what the runtime allocates (a limit below \<open>2^63\<close>, so that the product
  does not wrap), it does not panic, \<^verbatim>\<open>Size\<close> is then \<open>(w2, h2)\<close>, the invariant holds
  again, and \<^verbatim>\<open>GetCell\<close> inside the new bounds gives the cell of the old buffer at that
  coordinate within the overlap \<open>x < min w1 w2\<close>, \<open>y < min h1 h2\<close>, and the default cell
  outside it.
\<close>

theorem Resize_preserves_overlap:
  assumes "screen_inv s"
  shows "(w2 \<le> 0 \<or> h2 \<le> 0 \<longrightarrow> Resize limit s w2 h2 = Inr s)
         \<and> (0 < w2 \<and> 0 < h2 \<and> w2 * h2 \<le> limit \<and> limit < 2 ^ 63 \<longrightarrow>
              (\<exists>s'. Resize limit s w2 h2 = Inr s' \<and> Size s' = (w2, h2) \<and> screen_inv s'
                 \<and> out s' = out s
                 \<and> (\<forall>x y. 0 \<le> x \<and> x < w2 \<and> 0 \<le> y \<and> y < h2 \<longrightarrow>
                       GetCell s' x y
                         = (if x < min (width s) w2 \<and> y < min (height s) h2 then GetCell s x y
                            else Inr (NewCell 32 ColorDefault ColorDefault StyleNone)))))"
proof (intro conjI impI)
  assume "w2 \<le> 0 \<or> h2 \<le> 0"
  then show "Resize limit s w2 h2 = Inr s" by (auto simp: Resize_def)
next
  assume fits: "0 < w2 \<and> 0 < h2 \<and> w2 * h2 \<le> limit \<and> limit < 2 ^ 63"
  then have pos: "0 < w2 \<and> 0 < h2" by simp
  then have prod: "0 < w2 * h2" by simp
  let ?d = "NewCell 32 ColorDefault ColorDefault StyleNone"
  let ?made = "replicate (nat (w2 * h2)) zeroCell"
  let ?new = "map (\<lambda>_. ?d) ?made"
  let ?mw = "min (width s) w2" and ?mh = "min (height s) h2"
  from prod have nneg: "0 \<le> w2 * h2" by linarith
  have mk: "make_cells limit (go_int (w2 * h2)) = Inr ?made"
    using nneg fits by (intro make_cells_fits) simp_all
  from assms have inv: "0 < width s" "0 < height s" "int (length (cells s)) = width s * height s"
    by (simp_all add: screen_inv_def)
  have len: "int (length ?new) = w2 * h2" using pos by simp
  have small: "int (length ?new) < 2 ^ 63" using len fits by linarith
  have fo: "?mh * width s \<le> int (length (cells s))"
  proof -
    have "?mh * width s \<le> height s * width s" using inv by (intro mult_right_mono) simp_all
    then show ?thesis using inv by (simp add: mult.commute)
  qed
  have fn: "?mh * w2 \<le> int (length ?new)"
  proof -
    have "?mh * w2 \<le> h2 * w2" using pos by (intro mult_right_mono) simp_all
    then show ?thesis using len by (simp add: mult.commute)
  qed
  from Resize_rows_copies [of 0 "width s" w2 ?mw ?mh "cells s" ?new] inv pos fo fn small
  obtain res where res: "Resize_rows (cells s) (width s) w2 ?mw ?mh 0 ?new = Inr res"
    "length res = length ?new"
    and inside: "\<And>row k. 0 \<le> row \<Longrightarrow> row < ?mh \<Longrightarrow> 0 \<le> k \<Longrightarrow> k < ?mw \<Longrightarrow>
                  res ! nat (row * w2 + k) = cells s ! nat (row * width s + k)"
    and outside: "\<And>j. \<not> copied w2 ?mw ?mh 0 j \<Longrightarrow> res ! j = ?new ! j"
    by (simp del: length_map length_replicate map_replicate) blast
  let ?s' = "s\<lparr>width := w2, height := h2, cells := res\<rparr>"
  have run: "Resize limit s w2 h2 = Inr ?s'"
    using pos res(1) mk by (simp add: Resize_def Let_def min_if del: map_replicate)
  have inv': "screen_inv ?s'"
    using pos res(2) len by (simp add: screen_inv_def del: map_replicate)
  have get: "GetCell ?s' x y = (if x < ?mw \<and> y < ?mh then GetCell s x y else Inr ?d)"
    if xy: "0 \<le> x \<and> x < w2 \<and> 0 \<le> y \<and> y < h2" for x y
  proof -
    from xy have r': "in_range ?s' x y" by (simp add: in_range_def)
    have g: "GetCell ?s' x y = Inr (res ! nat (y * w2 + x))"
      using GetCell_in_range [OF inv' r'] by simp
    show ?thesis
    proof (cases "x < ?mw \<and> y < ?mh")
      case True
      with xy have r: "in_range s x y" by (simp add: in_range_def)
      from True xy have "res ! nat (y * w2 + x) = cells s ! nat (y * width s + x)"
        by (intro inside) simp_all
      with g True GetCell_in_range [OF assms r] show ?thesis by simp
    next
      case False
      have nn: "0 \<le> y * w2 + x" "y * w2 + x < w2 * h2"
        using flat_index_bound [of x w2 y h2] xy by simp_all
      have "\<not> copied w2 ?mw ?mh 0 (nat (y * w2 + x))"
      proof
        assume "copied w2 ?mw ?mh 0 (nat (y * w2 + x))"
        then obtain row k where c: "row < ?mh" "0 \<le> k" "k < ?mw"
          "int (nat (y * w2 + x)) = row * w2 + k"
          by (auto simp: copied_def)
        from c(4) nn have "y * w2 + x = row * w2 + k" by simp
        with flat_index_inj [of x w2 k y row] xy c have "x = k \<and> y = row" by simp
        with c False show False by simp
      qed
      then have "res ! nat (y * w2 + x) = ?new ! nat (y * w2 + x)" by (rule outside)
      also have "\<dots> = ?d" using nn by simp
      finally show ?thesis using g False by auto
    qed
  qed
  from run inv' get show "\<exists>s'. Resize limit s w2 h2 = Inr s' \<and> Size s' = (w2, h2) \<and> screen_inv s'
                 \<and> out s' = out s
                 \<and> (\<forall>x y. 0 \<le> x \<and> x < w2 \<and> 0 \<le> y \<and> y < h2 \<longrightarrow>
                       GetCell s' x y
                         = (if x < min (width s) w2 \<and> y < min (height s) h2 then GetCell s x y
                            else Inr (NewCell 32 ColorDefault ColorDefault StyleNone)))"
    by (intro exI [of _ ?s']) (simp add: Size_def)
qed

text \<open>On a runtime that allocates up to \<open>2^40\<close> cells: the 10 by 5 buffer under
  \<^verbatim>\<open>Resize(-1, 5)\<close>, and the 3 by 2 buffer resized to 2 by 3.\<close>

theorem Resize_preserves_overlap_witness:
  "screen_inv demo_10x5 \<and> Resize (2 ^ 40) demo_10x5 (- 1) 5 = Inr demo_10x5
   \<and> Size demo_10x5 = (10, 5)
   \<and> screen_inv demo
   \<and> (0 :: int) < 2 \<and> (0 :: int) < 3 \<and> (2 :: int) * 3 \<le> 2 ^ 40 \<and> (2 :: int) ^ 40 < 2 ^ 63
   \<and> (\<exists>s'. Resize (2 ^ 40) demo 2 3 = Inr s' \<and> Size s' = (2, 3)
         \<and> GetCell s' 0 0 = Inr (glyph 97) \<and> GetCell s' 1 0 = Inr (glyph 98)
         \<and> GetCell s' 0 1 = Inr (glyph 100) \<and> GetCell s' 1 1 = Inr (glyph 101)
         \<and> GetCell s' 0 2 = Inr (NewCell 32 ColorDefault ColorDefault StyleNone)
         \<and> GetCell s' 1 2 = Inr (NewCell 32 ColorDefault ColorDefault StyleNone))"
proof -
  have inv: "screen_inv demo" by (simp add: screen_inv_def demo_def)
  have inv10: "screen_inv demo_10x5" by (simp add: screen_inv_def demo_10x5_def)
  have g: "GetCell demo 0 0 = Inr (glyph 97)" "GetCell demo 1 0 = Inr (glyph 98)"
    "GetCell demo 0 1 = Inr (glyph 100)" "GetCell demo 1 1 = Inr (glyph 101)"
    by (simp_all add: GetCell_def cell_at_def demo_def)
  have w: "width demo = 3" and h: "height demo = 2" by (simp_all add: demo_def)
  from Resize_preserves_overlap [OF inv10, of "- 1" 5 "2 ^ 40"]
  have a: "Resize (2 ^ 40) demo_10x5 (- 1) 5 = Inr demo_10x5" by simp
  from Resize_preserves_overlap [OF inv, of 2 3 "2 ^ 40"]
  have b: "\<exists>s'. Resize (2 ^ 40) demo 2 3 = Inr s' \<and> Size s' = (2, 3)
         \<and> GetCell s' 0 0 = Inr (glyph 97) \<and> GetCell s' 1 0 = Inr (glyph 98)
         \<and> GetCell s' 0 1 = Inr (glyph 100) \<and> GetCell s' 1 1 = Inr (glyph 101)
         \<and> GetCell s' 0 2 = Inr (NewCell 32 ColorDefault ColorDefault StyleNone)
         \<and> GetCell s' 1 2 = Inr (NewCell 32 ColorDefault ColorDefault StyleNone)"
    by (auto simp: w h g)
  from inv inv10 a b show ?thesis by (simp add: Size_def demo_10x5_def)
qed

section \<open>Properties of the renderer\<close>


lemma and_then_None [simp]: "and_then (w, None) k = k w"
  by (simp add: and_then_def)

lemma and_then_Some [simp]: "and_then (w, Some err) k = (w, Some err)"
  by (simp add: and_then_def)

lemma and_then_return [simp]: "and_then res (\<lambda>w. (w, None)) = res"
  by (cases res) (auto simp: and_then_def split: option.splits)

lemma and_then_assoc:
  "and_then (and_then res f) k = and_then res (\<lambda>w. and_then (f w) k)"
  by (cases res) (auto simp: and_then_def split: option.splits)

lemma emit_all_append:
  "emit_all wr w (xs @ ys) = and_then (emit_all wr w xs) (\<lambda>w'. emit_all wr w' ys)"
proof (induction xs arbitrary: w)
  case Nil
  show ?case by simp
next
  case (Cons a xs)
  obtain msg str where a: "a = (msg, str)" by (cases a)
  show ?case by (simp add: a Cons.IH and_then_assoc)
qed

lemma Show_attrs_emits: "Show_attrs wr sty c w = emit_all wr w (attr_writes sty c)"
  by (simp add: Show_attrs_def attr_writes_def emit_all_append)

lemma Show_cell_emits:
  assumes "emit_all wr w (cell_writes sty prev c) = (w', res)"
  shows "\<exists>v'. Show_cell wr sty c (w, vars_of prev) = ((w', v'), res)
              \<and> (res = None \<longrightarrow> v' = vars_of (attrs_of c))"
proof (cases "attrs_of c = prev")
  case True
  then have same: "\<not> (Fg c \<noteq> lastFg (vars_of prev) \<or> Bg c \<noteq> lastBg (vars_of prev)
      \<or> Style c \<noteq> lastStyle (vars_of prev) \<or> needsReset (vars_of prev))"
    by (auto simp: attrs_of_def vars_of_def)
  have f: "Fprint wr ''failed to write character'' w (rune_string (Ch c)) = (w', res)"
    using True assms by (simp add: cell_writes_def)
  have "Show_cell wr sty c (w, vars_of prev) = ((w', vars_of prev), res)"
    unfolding Show_cell_def using same f by simp
  with True show ?thesis by simp
next
  case False
  then have diff: "Fg c \<noteq> lastFg (vars_of prev) \<or> Bg c \<noteq> lastBg (vars_of prev)
      \<or> Style c \<noteq> lastStyle (vars_of prev) \<or> needsReset (vars_of prev)"
    by (cases prev) (auto simp: attrs_of_def vars_of_def)
  have v': "(vars_of prev)\<lparr>lastFg := Fg c, lastBg := Bg c, lastStyle := Style c,
              needsReset := False\<rparr> = vars_of (attrs_of c)"
    by (cases prev) (simp add: vars_of_def attrs_of_def)
  obtain w1 r1 where a: "emit_all wr w (attr_writes sty c) = (w1, r1)"
    by (cases "emit_all wr w (attr_writes sty c)")
  have e: "and_then (w1, r1) (\<lambda>w'. Fprint wr ''failed to write character'' w' (rune_string (Ch c)))
      = (w', res)"
    using False a assms by (simp add: cell_writes_def emit_all_append)
  show ?thesis
  proof (cases r1)
    case (Some err)
    have "Show_cell wr sty c (w, vars_of prev) = ((w1, vars_of prev), Some err)"
      unfolding Show_cell_def using diff a Some by (simp add: Show_attrs_emits)
    with e Some show ?thesis by auto
  next
    case None
    with e have f: "Fprint wr ''failed to write character'' w1 (rune_string (Ch c)) = (w', res)"
      by simp
    have "Show_cell wr sty c (w, vars_of prev) = ((w', vars_of (attrs_of c)), res)"
      unfolding Show_cell_def using diff a None f v' by (simp add: Show_attrs_emits Let_def)
    then show ?thesis by simp
  qed
qed

lemma row_end_Cons: "row_end prev (c # cs) = row_end (attrs_of c) cs"
  by (simp add: row_end_def)

lemma Show_cols_emits:
  assumes "screen_inv s" "y < nat (height s)"
  shows "x \<le> nat (width s) \<Longrightarrow>
         emit_all wr w (row_writes sty prev (row_at s y x)) = (w', res) \<Longrightarrow>
         \<exists>v'. Show_cols wr sty s (int y) (int x) (w, vars_of prev) = Inr ((w', v'), res)
             \<and> (res = None \<longrightarrow> v' = vars_of (row_end prev (row_at s y x)))"
proof (induction "nat (width s) - x" arbitrary: x w prev)
  case 0
  then have "x = nat (width s)" by simp
  then have "row_at s y x = []" and "\<not> int x < width s" by (simp_all add: row_at_def)
  with "0.prems"(2) show ?case by (subst Show_cols.simps) (simp add: row_end_def)
next
  case (Suc n)
  then have lt: "x < nat (width s)" by simp
  then have ltw: "int x < width s" by simp
  let ?c = "cells s ! (y * nat (width s) + x)"
  have row: "row_at s y x = ?c # row_at s y (Suc x)"
    using lt by (simp add: row_at_def upt_conv_Cons)
  have rng: "in_range s (int x) (int y)"
    using lt assms(2) by (auto simp: in_range_def)
  have idx: "nat (int y * width s + int x) = y * nat (width s) + x"
    using assms(1) by (simp add: screen_inv_def nat_add_distrib nat_mult_distrib)
  have rd: "cell_at (cells s) (int y * width s + int x) = Inr ?c"
    using in_range_index [OF assms(1) rng] idx by (simp add: cell_at_def)
  obtain w1 r1 where e1: "emit_all wr w (cell_writes sty prev ?c) = (w1, r1)"
    by (cases "emit_all wr w (cell_writes sty prev ?c)")
  from Show_cell_emits [OF e1]
  obtain v1 where c1: "Show_cell wr sty ?c (w, vars_of prev) = ((w1, v1), r1)"
    and v1: "r1 = None \<longrightarrow> v1 = vars_of (attrs_of ?c)"
    by (elim exE conjE)
  have E: "and_then (w1, r1) (\<lambda>w'. emit_all wr w' (row_writes sty (attrs_of ?c) (row_at s y (Suc x))))
      = (w', res)"
    using Suc.prems(2) e1 by (simp add: row emit_all_append)
  show ?case
  proof (cases r1)
    case (Some err)
    have "Show_cols wr sty s (int y) (int x) (w, vars_of prev) = Inr ((w1, v1), Some err)"
      using ltw rd c1 Some by (subst Show_cols.simps) simp
    with E Some show ?thesis by auto
  next
    case None
    with E have E': "emit_all wr w1 (row_writes sty (attrs_of ?c) (row_at s y (Suc x))) = (w', res)"
      by simp
    have n: "n = nat (width s) - Suc x" using Suc.hyps(2) by simp
    have le: "Suc x \<le> nat (width s)" using lt by simp
    from Suc.hyps(1) [OF n le E']
    obtain v' where
      r: "Show_cols wr sty s (int y) (int (Suc x)) (w1, vars_of (attrs_of ?c)) = Inr ((w', v'), res)"
      and v': "res = None \<longrightarrow> v' = vars_of (row_end (attrs_of ?c) (row_at s y (Suc x)))"
      by (elim exE conjE)
    have s1: "int (Suc x) = int x + 1" by simp
    have "Show_cols wr sty s (int y) (int x) (w, vars_of prev)
        = Show_cols wr sty s (int y) (int x + 1) (w1, vars_of (attrs_of ?c))"
      using ltw rd c1 None v1 by (subst Show_cols.simps) simp
    with r v' show ?thesis by (simp only: s1 row row_end_Cons) simp
  qed
qed


lemma Show_rows_emits:
  assumes "screen_inv s"
  shows "y \<le> nat (height s) \<Longrightarrow>
         emit_all wr w (rows_writes sty prev (map (\<lambda>k. row_at s k 0) [y..<nat (height s)]))
           = (w', res) \<Longrightarrow>
         \<exists>v'. Show_rows wr sty s (int y) (w, vars_of prev) = Inr ((w', v'), res)"
proof (induction "nat (height s) - y" arbitrary: y w prev)
  case 0
  then have "y = nat (height s)" by simp
  then have "[y..<nat (height s)] = []" and "\<not> int y < height s" by simp_all
  with "0.prems"(2) show ?case by (subst Show_rows.simps) simp
next
  case (Suc n)
  then have lt: "y < nat (height s)" by simp
  then have lth: "int y < height s" by simp
  let ?rest = "map (\<lambda>k. row_at s k 0) [Suc y..<nat (height s)]"
  have rows: "map (\<lambda>k. row_at s k 0) [y..<nat (height s)] = row_at s y 0 # ?rest"
    using lt by (simp add: upt_conv_Cons)
  have last_row: "?rest = [] \<longleftrightarrow> \<not> int y < height s - 1"
    using lt by auto
  obtain w1 r1 where e1: "emit_all wr w (row_writes sty prev (row_at s y 0)) = (w1, r1)"
    by (cases "emit_all wr w (row_writes sty prev (row_at s y 0))")
  have z: "int 0 = 0" by simp
  from Show_cols_emits [OF assms lt _ e1]
  obtain v1 where c1: "Show_cols wr sty s (int y) 0 (w, vars_of prev) = Inr ((w1, v1), r1)"
    and v1: "r1 = None \<longrightarrow> v1 = vars_of (row_end prev (row_at s y 0))"
    by (simp only: z) auto
  have n: "n = nat (height s) - Suc y" using Suc.hyps(2) by simp
  have le: "Suc y \<le> nat (height s)" using lt by simp
  have s1: "int (Suc y) = int y + 1" by simp
  have E: "and_then (w1, r1) (\<lambda>w'.
             emit_all wr w'
               (if ?rest = [] then []
                else (''failed to write newline'', [CHR 0x0D, CHR 0x0A])
                     # rows_writes sty (row_end prev (row_at s y 0)) ?rest)) = (w', res)"
    using Suc.prems(2) e1 by (simp only: rows rows_writes.simps emit_all_append)
  show ?case
  proof (cases r1)
    case (Some err)
    have "Show_rows wr sty s (int y) (w, vars_of prev) = Inr ((w1, v1), Some err)"
      using lth c1 Some by (subst Show_rows.simps) simp
    with E Some show ?thesis by auto
  next
    case None
    then have v1': "v1 = vars_of (row_end prev (row_at s y 0))" using v1 by simp
    show ?thesis
    proof (cases "?rest = []")
      case True
      then have nl: "\<not> int y < height s - 1" using last_row by simp
      from True E None have e: "w' = w1" "res = None" by simp_all
      have "Suc y = nat (height s)" using nl lt by linarith
      then have stop: "\<not> int y + 1 < height s" by linarith
      have "Show_rows wr sty s (int y + 1) (w1, v1) = Inr ((w1, v1), None)"
        using stop by (subst Show_rows.simps) simp
      then have "Show_rows wr sty s (int y) (w, vars_of prev) = Inr ((w1, v1), None)"
        using lth c1 None nl by (subst Show_rows.simps) simp
      with e show ?thesis by simp
    next
      case False
      then have nl: "int y < height s - 1" using last_row by simp
      obtain w2 r2 where f: "Fprint wr ''failed to write newline'' w1 [CHR 0x0D, CHR 0x0A] = (w2, r2)"
        by (cases "Fprint wr ''failed to write newline'' w1 [CHR 0x0D, CHR 0x0A]")
      from False E None f
      have E2: "and_then (w2, r2) (\<lambda>w'.
                  emit_all wr w' (rows_writes sty (row_end prev (row_at s y 0)) ?rest)) = (w', res)"
        by simp
      show ?thesis
      proof (cases r2)
        case (Some err)
        have "Show_rows wr sty s (int y) (w, vars_of prev) = Inr ((w2, v1), Some err)"
          using lth c1 None nl f Some by (subst Show_rows.simps) simp
        with E2 Some show ?thesis by auto
      next
        case n2: None
        with E2 have E3:
          "emit_all wr w2 (rows_writes sty (row_end prev (row_at s y 0)) ?rest) = (w', res)"
          by simp
        from Suc.hyps(1) [OF n le E3]
        obtain v' where
          r: "Show_rows wr sty s (int (Suc y)) (w2, vars_of (row_end prev (row_at s y 0)))
                = Inr ((w', v'), res)"
          by (elim exE)
        have "Show_rows wr sty s (int y) (w, vars_of prev)
            = Show_rows wr sty s (int y + 1) (w2, v1)"
          using lth c1 None nl f n2 by (subst Show_rows.simps) simp
        with r v1' show ?thesis by (simp only: s1) simp
      qed
    qed
  qed
qed

lemma rows_of_eq: "rows_of s = map (\<lambda>k. row_at s k 0) [0..<nat (height s)]"
  by (simp add: rows_of_def row_at_def)

lemma vars_of_zero:
  "\<lparr>lastFg = zeroColor, lastBg = zeroColor, lastStyle = 0, needsReset = False\<rparr>
     = vars_of (zeroColor, zeroColor, 0)"
  by (simp add: vars_of_def)

lemma Show_emits:
  assumes "screen_inv s"
    and "emit_all wr (out s) (show_writes sty (zeroColor, zeroColor, 0) s) = (w', res)"
  shows "Show wr sty s = Inr (s\<lparr>out := w'\<rparr>, res)"
proof -
  let ?body = "rows_writes sty (zeroColor, zeroColor, 0) (rows_of s)"
  obtain w0 r0 where f0: "Fprint wr ''failed to move cursor'' (out s) (ESC # ''[H'') = (w0, r0)"
    by (cases "Fprint wr ''failed to move cursor'' (out s) (ESC # ''[H'')")
  have E: "and_then (w0, r0) (\<lambda>w. and_then (emit_all wr w ?body)
             (\<lambda>w. Fprint wr ''failed to reset final attributes'' w (ESC # ''[0m''))) = (w', res)"
    using assms(2) f0 by (simp add: show_writes_def emit_all_append)
  show ?thesis
  proof (cases r0)
    case (Some err)
    with E f0 show ?thesis by (auto simp: Show_def)
  next
    case None
    obtain w1 r1 where e1: "emit_all wr w0 ?body = (w1, r1)"
      by (cases "emit_all wr w0 ?body")
    from Show_rows_emits [OF assms(1) _ e1 [unfolded rows_of_eq]]
    obtain v1 where rws: "Show_rows wr sty s 0 (w0, vars_of (zeroColor, zeroColor, 0))
        = Inr ((w1, v1), r1)"
      by auto
    from E None e1 have E1: "and_then (w1, r1)
        (\<lambda>w. Fprint wr ''failed to reset final attributes'' w (ESC # ''[0m'')) = (w', res)"
      by simp
    show ?thesis
    proof (cases r1)
      case (Some err)
      with E1 f0 None rws show ?thesis by (auto simp: Show_def vars_of_zero)
    next
      case n1: None
      with E1 f0 None rws show ?thesis by (auto simp: Show_def vars_of_zero)
    qed
  qed
qed

lemma zero_triple: "(zeroColor, zeroColor, 0) = (ColorDefault, ColorDefault, StyleNone)"
  by (simp add: zeroColor_def ColorDefault_def StyleNone_def)

lemma emit_all_fails:
  "emit_all wr w ws = (w', Some err) \<Longrightarrow>
     \<exists>before msg str rest w1 e. ws = before @ (msg, str) # rest
        \<and> emit_all wr w before = (w1, None) \<and> wr w1 str = (w', Some e) \<and> err = Errorf msg e"
proof (induction ws arbitrary: w)
  case Nil
  then show ?case by simp
next
  case (Cons a ws)
  obtain msg str where a: "a = (msg, str)" by (cases a)
  obtain w1 r1 where f: "wr w str = (w1, r1)" by (cases "wr w str")
  show ?case
  proof (cases r1)
    case (Some e)
    with Cons.prems a f have "w' = w1" "err = Errorf msg e" by (simp_all add: Fprint_def)
    with Some f a have "a # ws = [] @ (msg, str) # ws \<and> emit_all wr w [] = (w, None)
        \<and> wr w str = (w', Some e) \<and> err = Errorf msg e"
      by simp
    then show ?thesis by blast
  next
    case None
    with Cons.prems a f have "emit_all wr w1 ws = (w', Some err)" by (simp add: Fprint_def)
    from Cons.IH [OF this] obtain before m s rest w2 e
      where r: "ws = before @ (m, s) # rest" "emit_all wr w1 before = (w2, None)"
        "wr w2 s = (w', Some e)" "err = Errorf m e"
      by blast
    from r None f a have "a # ws = (a # before) @ (m, s) # rest
        \<and> emit_all wr w (a # before) = (w2, None)
        \<and> wr w2 s = (w', Some e) \<and> err = Errorf m e"
      by (simp add: Fprint_def)
    then show ?thesis by blast
  qed
qed

lemma emit_all_buffer: "emit_all buffer_write w ws = (w @ concat (map snd ws), None)"
  by (induction ws arbitrary: w) (auto simp: buffer_write_def Fprint_def)

text \<open>
  Claim C2. \<^verbatim>\<open>Show\<close> returns without error exactly when every write of the following
  sequence, performed in this order on the sink, succeeds, and the sink is then the one
  they leave: the cursor-to-origin sequence; then the cells in row-major order, where a
  cell whose (fg, bg, style) triple equals that of the cell before it gets no attribute
  code, and a cell whose triple differs gets an attribute reset, the foreground code if
  the foreground is not the default color, the background code if the background is not
  default, the style code if the style is not none; after the attribute codes, or after
  none, always the character of the cell; a carriage return and line feed after each row
  but the last; and one final attribute reset. The first cell has no cell before it: it
  is compared with the triple of default colors and no style. The buffer is returned
  with only its sink changed.
\<close>

theorem Show_emits_exactly:
  assumes "screen_inv s"
  shows "(Show wr sty s = Inr (s', None) \<longleftrightarrow>
            s' = s\<lparr>out := out s'\<rparr>
            \<and> emit_all wr (out s) (show_writes sty (ColorDefault, ColorDefault, StyleNone) s)
                = (out s', None))
         \<and> (screen_inv t \<longrightarrow>
              Show buffer_write sty t
                = Inr (t\<lparr>out := out t
                          @ concat (map snd
                              (show_writes sty (ColorDefault, ColorDefault, StyleNone) t))\<rparr>,
                       None))"
proof
  obtain w1 r1 where
    e: "emit_all wr (out s) (show_writes sty (zeroColor, zeroColor, 0) s) = (w1, r1)"
    by (cases "emit_all wr (out s) (show_writes sty (zeroColor, zeroColor, 0) s)")
  from Show_emits [OF assms e] have run: "Show wr sty s = Inr (s\<lparr>out := w1\<rparr>, r1)" .
  show "Show wr sty s = Inr (s', None) \<longleftrightarrow>
            s' = s\<lparr>out := out s'\<rparr>
            \<and> emit_all wr (out s) (show_writes sty (ColorDefault, ColorDefault, StyleNone) s)
                = (out s', None)"
  proof
    assume "Show wr sty s = Inr (s', None)"
    with run have "s' = s\<lparr>out := w1\<rparr>" "r1 = None" by simp_all
    with e show "s' = s\<lparr>out := out s'\<rparr>
           \<and> emit_all wr (out s) (show_writes sty (ColorDefault, ColorDefault, StyleNone) s)
               = (out s', None)"
      by (simp add: zero_triple)
  next
    assume a: "s' = s\<lparr>out := out s'\<rparr>
           \<and> emit_all wr (out s) (show_writes sty (ColorDefault, ColorDefault, StyleNone) s)
               = (out s', None)"
    with e have "w1 = out s'" "r1 = None" by (simp_all add: zero_triple)
    with run a show "Show wr sty s = Inr (s', None)" by simp
  qed
next
  show "screen_inv t \<longrightarrow>
          Show buffer_write sty t
            = Inr (t\<lparr>out := out t
                      @ concat (map snd
                          (show_writes sty (ColorDefault, ColorDefault, StyleNone) t))\<rparr>,
                   None)"
  proof
    assume inv: "screen_inv t"
    have "emit_all buffer_write (out t) (show_writes sty (zeroColor, zeroColor, 0) t)
        = (out t @ concat (map snd (show_writes sty (zeroColor, zeroColor, 0) t)), None)"
      by (rule emit_all_buffer)
    from Show_emits [OF inv this] show "Show buffer_write sty t
            = Inr (t\<lparr>out := out t
                      @ concat (map snd
                          (show_writes sty (ColorDefault, ColorDefault, StyleNone) t))\<rparr>,
                   None)"
      by (simp add: zero_triple)
  qed
qed

text \<open>The bytes that \<^verbatim>\<open>Show\<close> appends to a byte buffer for the 2 by 2 example.\<close>

theorem Show_emits_exactly_witness:
  "screen_inv (painted [])
   \<and> Show buffer_write demo_style (painted [])
       = Inr (painted
               (ESC # ''[H'' @ ESC # ''[0m'' @ ESC # ''[31m'' @ ESC # ''[1m'' @ ''XY''
                @ [CHR 0x0D, CHR 0x0A] @ ESC # ''[0m'' @ '' ''
                @ ESC # ''[0m'' @ ESC # ''[38;2;1;2;3m'' @ ESC # ''[48;5;200m''
                @ [CHR 0xC3, CHR 0xA9] @ ESC # ''[0m''), None)"
proof -
  have inv: "screen_inv (painted [])" by (simp add: screen_inv_def painted_def)
  have ev: "concat (map snd
              (show_writes demo_style (ColorDefault, ColorDefault, StyleNone) (painted [])))
        = ESC # ''[H'' @ ESC # ''[0m'' @ ESC # ''[31m'' @ ESC # ''[1m'' @ ''XY''
                @ [CHR 0x0D, CHR 0x0A] @ ESC # ''[0m'' @ '' ''
                @ ESC # ''[0m'' @ ESC # ''[38;2;1;2;3m'' @ ESC # ''[48;5;200m''
                @ [CHR 0xC3, CHR 0xA9] @ ESC # ''[0m''"
    by code_simp
  have upd: "(painted [])\<lparr>out := w\<rparr> = painted w" for w :: string
    by (simp add: painted_def)
  have o: "out (painted ([] :: string)) = []" by (simp add: painted_def)
  from Show_emits_exactly [OF inv, where t = "painted []" and sty = demo_style,
      THEN conjunct2, rule_format, OF inv]
  have "Show buffer_write demo_style (painted [])
       = Inr (painted
               (ESC # ''[H'' @ ESC # ''[0m'' @ ESC # ''[31m'' @ ESC # ''[1m'' @ ''XY''
                @ [CHR 0x0D, CHR 0x0A] @ ESC # ''[0m'' @ '' ''
                @ ESC # ''[0m'' @ ESC # ''[38;2;1;2;3m'' @ ESC # ''[48;5;200m''
                @ [CHR 0xC3, CHR 0xA9] @ ESC # ''[0m''), None)"
    by (simp only: ev o upd append_Nil)
  with inv show ?thesis by (rule conjI)
qed

lemma emit_all_at_failure:
  assumes "ws = before @ (msg, str) # rest"
    and "emit_all wr w before = (w1, None)"
    and "wr w1 str = (w2, Some e)"
  shows "emit_all wr w ws = (w2, Some (Errorf msg e))"
  using assms by (simp add: emit_all_append Fprint_def)

text \<open>
  Claim C8. \<^verbatim>\<open>Show\<close> never panics and returns the buffer with its width, height and cells
  as they were, whether it succeeds or fails. Take the writes of the rendering in their
  order. If the writes before some write all succeed and that write fails, \<^verbatim>\<open>Show\<close>
  returns an error: the sink's error wrapped under the message of the sub-operation of
  the failing write (cursor move, attribute reset, foreground, background, style,
  character, newline, final reset), and the sink is the one the failing write left, so
  no later write was attempted. Every error \<^verbatim>\<open>Show\<close> returns arises in this way. When it
  returns no error, every write succeeded.
\<close>

theorem Show_aborts_at_first_failure:
  assumes "screen_inv s"
  shows "\<exists>s' res. Show wr sty s = Inr (s', res)
           \<and> width s' = width s \<and> height s' = height s \<and> cells s' = cells s
           \<and> (\<forall>before msg str rest w w' e.
                 show_writes sty (ColorDefault, ColorDefault, StyleNone) s
                   = before @ (msg, str) # rest
                 \<and> emit_all wr (out s) before = (w, None)
                 \<and> wr w str = (w', Some e)
                 \<longrightarrow> res = Some (Errorf msg e) \<and> out s' = w')
           \<and> (\<forall>err. res = Some err \<longrightarrow>
                 (\<exists>before msg str rest w e.
                     show_writes sty (ColorDefault, ColorDefault, StyleNone) s
                       = before @ (msg, str) # rest
                     \<and> emit_all wr (out s) before = (w, None)
                     \<and> wr w str = (out s', Some e)
                     \<and> err = Errorf msg e))
           \<and> (res = None \<longrightarrow>
                 emit_all wr (out s) (show_writes sty (ColorDefault, ColorDefault, StyleNone) s)
                   = (out s', None))"
proof -
  let ?ws = "show_writes sty (ColorDefault, ColorDefault, StyleNone) s"
  obtain w1 r1 where e: "emit_all wr (out s) ?ws = (w1, r1)"
    by (cases "emit_all wr (out s) ?ws")
  then have e0: "emit_all wr (out s) (show_writes sty (zeroColor, zeroColor, 0) s) = (w1, r1)"
    by (simp add: zero_triple)
  from Show_emits [OF assms e0] have run: "Show wr sty s = Inr (s\<lparr>out := w1\<rparr>, r1)" .
  have fail: "r1 = Some (Errorf msg e) \<and> w1 = w'"
    if "?ws = before @ (msg, str) # rest" "emit_all wr (out s) before = (w, None)"
      "wr w str = (w', Some e)" for before msg str rest w w' e
    using emit_all_at_failure [OF that] e by simp
  have shape: "\<exists>before msg str rest w e. ?ws = before @ (msg, str) # rest
          \<and> emit_all wr (out s) before = (w, None)
          \<and> wr w str = (w1, Some e)
          \<and> err = Errorf msg e" if "r1 = Some err" for err
    using emit_all_fails [of wr "out s" ?ws w1 err] e that by simp
  have ok: "emit_all wr (out s) ?ws = (w1, None)" if "r1 = None"
    using e that by simp
  have "width (s\<lparr>out := w1\<rparr>) = width s \<and> height (s\<lparr>out := w1\<rparr>) = height s
      \<and> cells (s\<lparr>out := w1\<rparr>) = cells s
      \<and> (\<forall>before msg str rest w w' e.
             ?ws = before @ (msg, str) # rest
             \<and> emit_all wr (out s) before = (w, None)
             \<and> wr w str = (w', Some e)
             \<longrightarrow> r1 = Some (Errorf msg e) \<and> out (s\<lparr>out := w1\<rparr>) = w')
      \<and> (\<forall>err. r1 = Some err \<longrightarrow>
             (\<exists>before msg str rest w e.
                 ?ws = before @ (msg, str) # rest
                 \<and> emit_all wr (out s) before = (w, None)
                 \<and> wr w str = (out (s\<lparr>out := w1\<rparr>), Some e)
                 \<and> err = Errorf msg e))
      \<and> (r1 = None \<longrightarrow> emit_all wr (out s) ?ws = (out (s\<lparr>out := w1\<rparr>), None))"
    using fail shape ok by (simp del: ex_simps all_simps)
  with run show ?thesis by blast
qed

text \<open>A sink that accepts two writes: the third write of the 2 by 2 example, the
  foreground code of the first cell, fails.\<close>

theorem Show_aborts_at_first_failure_witness:
  "screen_inv (painted ([], 2 :: nat))
   \<and> (\<exists>s' res. Show failing_write demo_style (painted ([], 2)) = Inr (s', res)
         \<and> width s' = 2 \<and> height s' = 2 \<and> cells s' = cells (painted ([], 2 :: nat))
         \<and> out s' = (ESC # ''[H'' @ ESC # ''[0m'', 0)
         \<and> res = Some (Errorf ''failed to set foreground color'' ()))"
proof -
  have inv: "screen_inv (painted ([], 2 :: nat))" by (simp add: screen_inv_def painted_def)
  have ev: "Show failing_write demo_style (painted ([], 2))
      = Inr (painted (ESC # ''[H'' @ ESC # ''[0m'', 0),
             Some (Errorf ''failed to set foreground color'' ()))"
    by code_simp
  show ?thesis
    using inv ev Show_aborts_at_first_failure [OF inv, of failing_write demo_style]
    by (simp add: painted_def)
qed

text \<open>
  Claim C3, as stated, fails: \<^verbatim>\<open>Show\<close> starts the loop with the zero-valued triple and
  \<^verbatim>\<open>needsReset := false\<close>, not with a sentinel. On the buffer that \<^verbatim>\<open>NewScreen(1, 1)\<close>
  returns, whose only cell is the default cell, the space follows the cursor-to-origin
  sequence directly: no attribute reset is written before the character of the first
  cell. (The first argument of \<^verbatim>\<open>NewScreen\<close> is the allocation limit of the runtime.)
\<close>

theorem Show_default_first_cell_no_reset:
  "NewScreen (2 ^ 40) [] 1 1 = Inr blank
   \<and> Show buffer_write demo_style blank
       = Inr (blank\<lparr>out := ESC # ''[H'' @ '' '' @ ESC # ''[0m''\<rparr>, None)"
  by code_simp

lemma rows_of_first:
  assumes "screen_inv s"
  shows "\<exists>cs rows. rows_of s = (cells s ! 0 # cs) # rows"
proof -
  from assms have w: "0 < nat (width s)" and h: "0 < nat (height s)"
    by (simp_all add: screen_inv_def)
  have "rows_of s = row_at s 0 0 # map (\<lambda>k. row_at s k 0) [Suc 0..<nat (height s)]"
    using h by (simp add: rows_of_eq upt_conv_Cons)
  moreover have "row_at s 0 0
      = cells s ! 0 # map (\<lambda>k. cells s ! (0 * nat (width s) + k)) [Suc 0..<nat (width s)]"
    using w by (simp add: row_at_def upt_conv_Cons)
  ultimately show ?thesis by simp
qed

text \<open>
  Claim C3, amended. \<^verbatim>\<open>Show\<close> compares the first cell with the triple of default
  foreground, default background and no style. For every buffer whose cell at \<open>(0, 0)\<close>
  has a triple different from that one, each call of \<^verbatim>\<open>Show\<close> writes, right after the
  cursor-to-origin sequence and before the character of the first cell, an attribute
  reset followed by the applicable foreground, background and style codes.
\<close>

theorem Show_first_cell_attributes:
  assumes "screen_inv s" and "GetCell s 0 0 = Inr c"
    and "(Fg c, Bg c, Style c) \<noteq> (ColorDefault, ColorDefault, StyleNone)"
  shows "\<exists>rest. Show buffer_write sty s
           = Inr (s\<lparr>out := out s @ ESC # ''[H'' @ ESC # ''[0m''
                          @ (if mode (Fg c) \<noteq> ColorModeDefault then ansiCode (Fg c) True else [])
                          @ (if mode (Bg c) \<noteq> ColorModeDefault then ansiCode (Bg c) False else [])
                          @ (if Style c \<noteq> StyleNone then sty (Style c) else [])
                          @ rune_string (Ch c) @ rest\<rparr>, None)"
proof -
  have r: "in_range s 0 0" using assms(1) by (simp add: in_range_def screen_inv_def)
  from GetCell_in_range [OF assms(1) r] assms(2) have c: "cells s ! 0 = c" by simp
  from rows_of_first [OF assms(1)] c obtain cs rows where rows: "rows_of s = (c # cs) # rows"
    by auto
  have ne: "attrs_of c \<noteq> (zeroColor, zeroColor, 0)"
    using assms(3) by (simp add: attrs_of_def zero_triple)
  let ?rest = "rows_writes sty (zeroColor, zeroColor, 0) ((c # cs) # rows)"
  have "\<exists>more. rows_writes sty (zeroColor, zeroColor, 0) ((c # cs) # rows)
      = attr_writes sty c @ (''failed to write character'', rune_string (Ch c)) # more"
    using ne by (simp add: cell_writes_def)
  then obtain more where m: "show_writes sty (zeroColor, zeroColor, 0) s
      = (''failed to move cursor'', ESC # ''[H'')
        # attr_writes sty c @ (''failed to write character'', rune_string (Ch c)) # more
        @ [(''failed to reset final attributes'', ESC # ''[0m'')]"
    by (auto simp: show_writes_def rows)
  have e: "emit_all buffer_write (out s) (show_writes sty (zeroColor, zeroColor, 0) s)
      = (out s @ concat (map snd (show_writes sty (zeroColor, zeroColor, 0) s)), None)"
    by (rule emit_all_buffer)
  have bytes: "concat (map snd (attr_writes sty c))
      = ESC # ''[0m''
        @ (if mode (Fg c) \<noteq> ColorModeDefault then ansiCode (Fg c) True else [])
        @ (if mode (Bg c) \<noteq> ColorModeDefault then ansiCode (Bg c) False else [])
        @ (if Style c \<noteq> StyleNone then sty (Style c) else [])"
    by (simp add: attr_writes_def)
  have "out s @ concat (map snd (show_writes sty (zeroColor, zeroColor, 0) s))
      = out s @ ESC # ''[H'' @ ESC # ''[0m''
          @ (if mode (Fg c) \<noteq> ColorModeDefault then ansiCode (Fg c) True else [])
          @ (if mode (Bg c) \<noteq> ColorModeDefault then ansiCode (Bg c) False else [])
          @ (if Style c \<noteq> StyleNone then sty (Style c) else [])
          @ rune_string (Ch c)
          @ concat (map snd (more @ [(''failed to reset final attributes'', ESC # ''[0m'')]))"
    unfolding m using bytes by simp
  with Show_emits [OF assms(1) e] show ?thesis by metis
qed

text \<open>The 2 by 2 example, whose first cell is a bold red \<open>X\<close>.\<close>

theorem Show_first_cell_attributes_witness:
  "screen_inv (painted [])
   \<and> GetCell (painted []) 0 0 = Inr (NewCell 88 ColorRed ColorDefault 1)
   \<and> (ColorRed, ColorDefault, 1) \<noteq> (ColorDefault, ColorDefault, StyleNone)
   \<and> (\<exists>rest. Show buffer_write demo_style (painted [])
         = Inr (painted (ESC # ''[H'' @ ESC # ''[0m'' @ ESC # ''[31m'' @ ESC # ''[1m''
                         @ ''X'' @ rest), None))"
proof -
  have inv: "screen_inv (painted [])" by (simp add: screen_inv_def painted_def)
  have g: "GetCell (painted []) 0 0 = Inr (NewCell 88 ColorRed ColorDefault 1)"
    by (simp add: GetCell_def cell_at_def painted_def)
  have d: "(Fg (NewCell 88 ColorRed ColorDefault 1), Bg (NewCell 88 ColorRed ColorDefault 1),
            Style (NewCell 88 ColorRed ColorDefault 1))
           \<noteq> (ColorDefault, ColorDefault, StyleNone)"
    by (simp add: NewCell_def StyleNone_def)
  have x: "rune_string 88 = ''X''" by code_simp
  have a: "ansiCode ColorRed True = ESC # ''[31m''" by code_simp
  from Show_first_cell_attributes [OF inv g d, of demo_style] x a
  have "\<exists>rest. Show buffer_write demo_style (painted [])
         = Inr (painted (ESC # ''[H'' @ ESC # ''[0m'' @ ESC # ''[31m'' @ ESC # ''[1m''
                         @ ''X'' @ rest), None)"
    by (simp add: NewCell_def ColorRed_def ColorDefault_def ColorIndex_def StyleNone_def
        demo_style_def painted_def)
  with inv g d show ?thesis by (simp add: NewCell_def)
qed

end
